theory Spec2Isabelle
  imports Complex_Main "HOL-Library.Signed_Division"
begin

section \<open>Data model\<close>

text \<open>
  Both programs (\<^verbatim>\<open>2DHull.cpp\<close> and \<^verbatim>\<open>2DTriangulation.cpp\<close>) work on integer window
  coordinates.  The C++ type is \<^verbatim>\<open>int\<close>; every coordinate the programs create lies in
  the window (at most 1000 by 800, lattice points a few multiples of that), so every
  product and sum below stays far inside the 32-bit range (see \<open>scores_fit_in_int\<close>)
  and the coordinates are modelled as mathematical integers.  The one number that
  leaves the range is the radius counter of \<^verbatim>\<open>cluster_peel\<close>, which is modelled with
  its wrap-around (\<open>int32\<close>).  The fields \<^verbatim>\<open>x, y\<close> of \<^verbatim>\<open>point\<close>, \<^verbatim>\<open>p1, p2\<close> of \<^verbatim>\<open>edge\<close>
  and \<^verbatim>\<open>p1, p2, p3\<close> of \<^verbatim>\<open>tri\<close> carry a prefix, since the source uses the same names
  for its local variables.
\<close>

record point =
  px :: int
  py :: int

record edge =
  ep1 :: point
  ep2 :: point

record tri =
  tp1 :: point
  tp2 :: point
  tp3 :: point

text \<open>
  What the source leaves undefined and what the model makes of it: a read of a point
  that was never assigned (\<^verbatim>\<open>minPoint\<close>, \<^verbatim>\<open>maxPoint\<close> in \<^verbatim>\<open>convex_hull\<close>), an index into
  an empty vector (\<^verbatim>\<open>global.points[0]\<close>, \<^verbatim>\<open>global.edges[0]\<close>), and a recursion or loop
  that did not finish within the fuel the model was given.
\<close>

datatype error = OutOfFuel | UninitialisedRead | EmptyVector

text \<open>The process-wide structure \<^verbatim>\<open>global\<close> of \<^verbatim>\<open>2DHull.cpp\<close>; fields prefixed \<open>g_\<close>.\<close>

record glob =
  g_w :: int
  g_h :: int
  g_n :: int
  g_points :: "point list"
  g_coords :: "point list"
  g_edges :: "edge list"
  g_mouseDraw :: bool
  g_shuffled :: bool
  g_clusters :: int
  g_clustering :: bool

section \<open>2DHull.cpp\<close>

text \<open>
  The signed score \<^verbatim>\<open>d = a * p.x + b * p.y + c\<close> of a point against the line through
  \<open>p1\<close> and \<open>p2\<close>, with \<^verbatim>\<open>a = p1.y - p2.y\<close>, \<^verbatim>\<open>b = p2.x - p1.x\<close>,
  \<^verbatim>\<open>c = p1.x * p2.y - p1.y * p2.x\<close>.  \<^verbatim>\<open>2DTriangulation.cpp\<close> has it as the function
  \<^verbatim>\<open>dist\<close> (here \<open>dist_line\<close>); \<^verbatim>\<open>2DHull.cpp\<close> writes it out in \<^verbatim>\<open>quick_hull\<close> and in
  \<^verbatim>\<open>peel\<close>.
\<close>

definition dist_line :: "point \<Rightarrow> point \<Rightarrow> point \<Rightarrow> int" where
  "dist_line p1 p2 p3 =
     (py p1 - py p2) * px p3 + (px p2 - px p1) * py p3 + (px p1 * py p2 - py p1 * px p2)"

definition same_point :: "point \<Rightarrow> point \<Rightarrow> bool" where
  "same_point p q \<longleftrightarrow> px p = px q \<and> py p = py q"

text \<open>One round of the scan in \<^verbatim>\<open>quick_hull\<close>; the state is \<^verbatim>\<open>(pMax, maxD)\<close>.\<close>

definition max_step :: "point \<Rightarrow> point \<Rightarrow> point \<Rightarrow> point \<times> int \<Rightarrow> point \<times> int" where
  "max_step p1 p2 p acc =
     (if \<not> (same_point p p1 \<or> same_point p p2)
      then (let d = dist_line p1 p2 p in if d > snd acc then (p, d) else acc)
      else acc)"

definition find_max :: "point list \<Rightarrow> point \<Rightarrow> point \<Rightarrow> point \<times> int" where
  "find_max points p1 p2 = fold (max_step p1 p2) points (\<lparr>px = 0, py = 0\<rparr>, 0)"

text \<open>
  \<^verbatim>\<open>quick_hull(points, p1, p2)\<close>: the recursion of the source, which pushes the edge
  \<open>(p1, p2)\<close> on \<^verbatim>\<open>global.edges\<close> when no point has a positive score and otherwise
  calls itself on \<open>(p1, pMax)\<close> and then on \<open>(pMax, p2)\<close>.  The first argument bounds the
  depth of the recursion.
\<close>

fun quick_hull :: "nat \<Rightarrow> point list \<Rightarrow> point \<Rightarrow> point \<Rightarrow> glob \<Rightarrow> error + glob" where
  "quick_hull 0 points p1 p2 s = Inl OutOfFuel"
| "quick_hull (Suc k) points p1 p2 s =
     (let pMax = fst (find_max points p1 p2); maxD = snd (find_max points p1 p2) in
      if maxD = 0 then Inr (s\<lparr>g_edges := g_edges s @ [\<lparr>ep1 = p1, ep2 = p2\<rparr>]\<rparr>)
      else (case quick_hull k points p1 pMax s of
              Inl e \<Rightarrow> Inl e
            | Inr s1 \<Rightarrow> quick_hull k points pMax p2 s1))"

text \<open>
  The two scans of \<^verbatim>\<open>convex_hull\<close>.  \<^verbatim>\<open>minPoint.x\<close> starts at \<^verbatim>\<open>global.w\<close> and
  \<^verbatim>\<open>maxPoint.x\<close> at \<open>-1\<close>; their \<open>y\<close> is not initialised.  A point that is assigned
  has \<open>x\<close> below (above) the sentinel, so the sentinel still standing after the scan
  says that the point was never assigned.
\<close>

definition min_step :: "point \<Rightarrow> point \<Rightarrow> point" where
  "min_step p minPoint = (if px p < px minPoint then p else minPoint)"

definition max_x_step :: "point \<Rightarrow> point \<Rightarrow> point" where
  "max_x_step p maxPoint = (if px p > px maxPoint then p else maxPoint)"

definition find_min_point :: "int \<Rightarrow> point list \<Rightarrow> point" where
  "find_min_point w points = fold min_step points \<lparr>px = w, py = 0\<rparr>"

definition find_max_point :: "point list \<Rightarrow> point" where
  "find_max_point points = fold max_x_step points \<lparr>px = - 1, py = 0\<rparr>"

definition convex_hull :: "nat \<Rightarrow> point list \<Rightarrow> glob \<Rightarrow> error + glob" where
  "convex_hull fuel points s =
     (if length points < 3 then Inr s
      else (let minPoint = find_min_point (g_w s) points;
                maxPoint = find_max_point points in
            if px minPoint = g_w s \<or> px maxPoint = - 1 then Inl UninitialisedRead
            else (case quick_hull fuel points minPoint maxPoint s of
                    Inl e \<Rightarrow> Inl e
                  | Inr s1 \<Rightarrow> quick_hull fuel points maxPoint minPoint s1)))"

text \<open>
  \<^verbatim>\<open>peel\<close>.  The inner loop over \<^verbatim>\<open>global.edges\<close> sets \<^verbatim>\<open>pointExists\<close> as soon as one
  edge has score \<open>0\<close> at the point; the loop runs over every edge in \<^verbatim>\<open>global.edges\<close>,
  which neither \<^verbatim>\<open>peel\<close> nor \<^verbatim>\<open>convex_hull\<close> clears.
\<close>

definition pointExists :: "edge list \<Rightarrow> point \<Rightarrow> bool" where
  "pointExists es p = list_ex (\<lambda>e. dist_line (ep1 e) (ep2 e) p = 0) es"

text \<open>
  The \<^verbatim>\<open>while\<close> loop of \<^verbatim>\<open>peel\<close>.  It returns the local vector \<^verbatim>\<open>points\<close> as the loop
  leaves it and the state; the list of layers (the edges each round appended) is
  bookkeeping of the model, the source keeps all edges in \<^verbatim>\<open>global.edges\<close> only.
\<close>

fun peel_loop ::
  "nat \<Rightarrow> point list \<Rightarrow> edge list list \<Rightarrow> glob \<Rightarrow> error + (point list \<times> edge list list \<times> glob)"
where
  "peel_loop 0 points layers s = Inl OutOfFuel"
| "peel_loop (Suc k) points layers s =
     (if length points > 2
      then (case convex_hull k points s of
              Inl e \<Rightarrow> Inl e
            | Inr s1 \<Rightarrow>
                peel_loop k (filter (\<lambda>p. \<not> pointExists (g_edges s1) p) points)
                  (layers @ [drop (length (g_edges s)) (g_edges s1)]) s1)
      else Inr (points, layers, s))"

text \<open>
  What \<^verbatim>\<open>peel\<close> hands back: the message it prints (\<^verbatim>\<open>global.points.size()\<close> and
  \<^verbatim>\<open>global.edges.size()\<close>), the points left in its local vector, and the layers.
\<close>

record peel_result =
  printed_points :: nat
  printed_edges :: nat
  remaining :: "point list"
  layers :: "edge list list"

definition peel :: "nat \<Rightarrow> point list \<Rightarrow> glob \<Rightarrow> error + (peel_result \<times> glob)" where
  "peel fuel points s =
     (case peel_loop fuel points [] s of
        Inl e \<Rightarrow> Inl e
      | Inr (rest, ls, s1) \<Rightarrow>
          Inr (\<lparr>printed_points = length (g_points s1), printed_edges = length (g_edges s1),
                remaining = rest, layers = ls\<rparr>,
               if \<not> g_clustering s1 then s1\<lparr>g_points := []\<rparr> else s1))"


text \<open>
  \<^verbatim>\<open>pythagorean\<close> returns \<^verbatim>\<open>sqrt(...)\<close> of the squared distance, an \<^verbatim>\<open>int\<close>, through
  the conversion of the \<^verbatim>\<open>double\<close> result back to \<^verbatim>\<open>int\<close>.  The squared distance of two
  window points is below \<open>2^31\<close> and exactly representable, the library square root is
  correctly rounded, and the conversion truncates; the result is the integer square
  root, computed here digit by digit in base 2 (and \<open>0\<close> on a negative number, which a
  sum of two squares never is).
\<close>

function isqrt :: "int \<Rightarrow> int" where
  "isqrt n =
     (if n < 4 then (if n \<le> 0 then 0 else 1)
      else (let r = 2 * isqrt (n div 4) in if (r + 1) * (r + 1) \<le> n then r + 1 else r))"
  by pat_completeness auto
termination
  by (relation "measure nat") auto

declare isqrt.simps [simp del]

definition pythagorean :: "point \<Rightarrow> point \<Rightarrow> int" where
  "pythagorean p1 p2 =
     isqrt ((px p2 - px p1) * (px p2 - px p1) + (py p2 - py p1) * (py p2 - py p1))"

text \<open>
  The comparison \<^verbatim>\<open>clusterPoints.size() < global.n / global.clusters\<close> converts the
  \<^verbatim>\<open>int\<close> quotient (C++ division truncates towards zero) to the unsigned type of
  \<^verbatim>\<open>size()\<close>, taken to be 64 bits wide.
\<close>

definition size_t_of :: "int \<Rightarrow> nat" where
  "size_t_of v = nat (v mod 2 ^ 64)"

definition cluster_target :: "glob \<Rightarrow> nat" where
  "cluster_target s = size_t_of (g_n s sdiv g_clusters s)"

text \<open>
  The \<^verbatim>\<open>for\<close> loop inside the \<^verbatim>\<open>while\<close> loop of \<^verbatim>\<open>cluster_peel\<close>: it leaves at once
  when the cluster is full and otherwise appends the point when its distance to
  \<^verbatim>\<open>clusterPoints[0]\<close> is \<^verbatim>\<open>dist\<close>.
\<close>

fun grow_scan :: "point \<Rightarrow> int \<Rightarrow> nat \<Rightarrow> point list \<Rightarrow> point list \<Rightarrow> point list" where
  "grow_scan seed d target [] clusterPoints = clusterPoints"
| "grow_scan seed d target (p # ps) clusterPoints =
     (if length clusterPoints \<ge> target then clusterPoints
      else grow_scan seed d target ps
             (if pythagorean seed p = d then clusterPoints @ [p] else clusterPoints))"

text \<open>
  The counter \<^verbatim>\<open>dist\<close> of the \<^verbatim>\<open>while\<close> loop is an \<^verbatim>\<open>int\<close> of 32 bits.  \<^verbatim>\<open>dist++\<close> at
  \<^verbatim>\<open>INT_MAX\<close> overflows: the language leaves the result open, the machine goes round
  to the least \<^verbatim>\<open>int\<close>, and so does \<open>int32\<close>.
\<close>

definition int32 :: "int \<Rightarrow> int" where
  "int32 v = (v + 2 ^ 31) mod 2 ^ 32 - 2 ^ 31"

text \<open>
  The \<^verbatim>\<open>while\<close> loop: one scan per radius, then \<^verbatim>\<open>dist++\<close>.
\<close>

fun grow :: "nat \<Rightarrow> point list \<Rightarrow> point \<Rightarrow> nat \<Rightarrow> int \<Rightarrow> point list \<Rightarrow> error + point list" where
  "grow 0 points seed target d clusterPoints = Inl OutOfFuel"
| "grow (Suc k) points seed target d clusterPoints =
     (if length clusterPoints < target
      then grow k points seed target (int32 (d + 1)) (grow_scan seed d target points clusterPoints)
      else Inr clusterPoints)"

text \<open>
  One round of the outer \<^verbatim>\<open>for\<close> loop of \<^verbatim>\<open>cluster_peel\<close>: seed the cluster with
  \<^verbatim>\<open>global.points[0]\<close>, grow it, peel it, and take its points out of \<^verbatim>\<open>global.points\<close>.
\<close>

definition cluster_round :: "nat \<Rightarrow> glob \<Rightarrow> error + (peel_result \<times> glob)" where
  "cluster_round fuel s =
     (case g_points s of
        [] \<Rightarrow> Inl EmptyVector
      | seed # _ \<Rightarrow>
          (case grow fuel (g_points s) seed (cluster_target s) 1 [seed] of
             Inl e \<Rightarrow> Inl e
           | Inr clusterPoints \<Rightarrow>
               (case peel fuel clusterPoints s of
                  Inl e \<Rightarrow> Inl e
                | Inr (res, s1) \<Rightarrow>
                    Inr (res, s1\<lparr>g_points :=
                           filter (\<lambda>p1. \<not> list_ex (\<lambda>p2. same_point p1 p2) clusterPoints)
                             (g_points s1)\<rparr>))))"

fun cluster_rounds :: "nat \<Rightarrow> nat \<Rightarrow> glob \<Rightarrow> error + (peel_result list \<times> glob)" where
  "cluster_rounds fuel 0 s = Inr ([], s)"
| "cluster_rounds fuel (Suc i) s =
     (case cluster_round fuel s of
        Inl e \<Rightarrow> Inl e
      | Inr (res, s1) \<Rightarrow>
          (case cluster_rounds fuel i s1 of
             Inl e \<Rightarrow> Inl e
           | Inr (rs, s2) \<Rightarrow> Inr (res # rs, s2)))"

definition cluster_peel :: "nat \<Rightarrow> glob \<Rightarrow> error + (peel_result list \<times> glob)" where
  "cluster_peel fuel s =
     (case cluster_rounds fuel (nat (g_clusters s)) (s\<lparr>g_clustering := True\<rparr>) of
        Inl e \<Rightarrow> Inl e
      | Inr (rs, s1) \<Rightarrow> Inr (rs, s1\<lparr>g_clustering := False\<rparr>))"


section \<open>2DTriangulation.cpp\<close>

text \<open>The structure \<^verbatim>\<open>global\<close> of \<^verbatim>\<open>2DTriangulation.cpp\<close>; fields prefixed \<open>t_\<close>.\<close>

record tglob =
  t_w :: int
  t_h :: int
  t_n :: int
  t_points :: "point list"
  t_coords :: "point list"
  t_edges :: "edge list"
  t_tris :: "tri list"
  t_mouseDraw :: bool
  t_shuffled :: bool

text \<open>
  \<^verbatim>\<open>quick_hull(p1, p2)\<close> and \<^verbatim>\<open>convex_hull()\<close> of this program scan \<^verbatim>\<open>global.points\<close>
  instead of a vector passed by value; the rest is the code of \<^verbatim>\<open>2DHull.cpp\<close>.
\<close>

fun quick_hull_t :: "nat \<Rightarrow> point \<Rightarrow> point \<Rightarrow> tglob \<Rightarrow> error + tglob" where
  "quick_hull_t 0 p1 p2 s = Inl OutOfFuel"
| "quick_hull_t (Suc k) p1 p2 s =
     (let pMax = fst (find_max (t_points s) p1 p2); maxD = snd (find_max (t_points s) p1 p2) in
      if maxD = 0 then Inr (s\<lparr>t_edges := t_edges s @ [\<lparr>ep1 = p1, ep2 = p2\<rparr>]\<rparr>)
      else (case quick_hull_t k p1 pMax s of
              Inl e \<Rightarrow> Inl e
            | Inr s1 \<Rightarrow> quick_hull_t k pMax p2 s1))"

definition convex_hull_t :: "nat \<Rightarrow> tglob \<Rightarrow> error + tglob" where
  "convex_hull_t fuel s =
     (if length (t_points s) < 3 then Inr s
      else (let minPoint = find_min_point (t_w s) (t_points s);
                maxPoint = find_max_point (t_points s) in
            if px minPoint = t_w s \<or> px maxPoint = - 1 then Inl UninitialisedRead
            else (case quick_hull_t fuel minPoint maxPoint s of
                    Inl e \<Rightarrow> Inl e
                  | Inr s1 \<Rightarrow> quick_hull_t fuel maxPoint minPoint s1)))"

definition on_edge :: "tglob \<Rightarrow> point \<Rightarrow> bool" where
  "on_edge s p = list_ex (\<lambda>e. same_point p (ep1 e) \<or> same_point p (ep2 e)) (t_edges s)"

definition point_in_triangle :: "point \<Rightarrow> tri \<Rightarrow> bool" where
  "point_in_triangle p t =
     (let d1 = dist_line (tp1 t) (tp2 t) p; d2 = dist_line (tp2 t) (tp3 t) p in
      if (d1 > 0 \<and> d2 < 0) \<or> (d1 < 0 \<and> d2 > 0) then False
      else (let d3 = dist_line (tp3 t) (tp1 t) p in
            if (d1 > 0 \<and> d3 < 0) \<or> (d1 < 0 \<and> d3 > 0) then False else True))"

text \<open>
  The three guards around the recursive calls in \<^verbatim>\<open>trisect\<close>: the point is none of the
  triangle's vertices, it lies within the extents (which start from the sentinels
  \<open>-1\<close>, \<^verbatim>\<open>global.w\<close>, \<open>-1\<close>, \<^verbatim>\<open>global.h\<close>), and \<^verbatim>\<open>point_in_triangle\<close> accepts it.
\<close>

definition is_vertex :: "point \<Rightarrow> tri \<Rightarrow> bool" where
  "is_vertex p t \<longleftrightarrow> same_point p (tp1 t) \<or> same_point p (tp2 t) \<or> same_point p (tp3 t)"

definition in_extents :: "tglob \<Rightarrow> tri \<Rightarrow> point \<Rightarrow> bool" where
  "in_extents s t p =
     (let xMax = max (px (tp3 t)) (max (px (tp2 t)) (max (px (tp1 t)) (- 1)));
          yMax = max (py (tp3 t)) (max (py (tp2 t)) (max (py (tp1 t)) (- 1)));
          xMin = min (px (tp3 t)) (min (px (tp2 t)) (min (px (tp1 t)) (t_w s)));
          yMin = min (py (tp3 t)) (min (py (tp2 t)) (min (py (tp1 t)) (t_h s)))
      in px p \<ge> xMin \<and> px p \<le> xMax \<and> py p \<ge> yMin \<and> py p \<le> yMax)"

definition subdivides :: "tglob \<Rightarrow> tri \<Rightarrow> point \<Rightarrow> bool" where
  "subdivides s t p \<longleftrightarrow> \<not> is_vertex p t \<and> in_extents s t p \<and> point_in_triangle p t"

text \<open>
  \<^verbatim>\<open>trisect\<close>.  The loop runs over all of \<^verbatim>\<open>global.points\<close>; its state is the flag
  \<^verbatim>\<open>pFound\<close> and the global structure, to which the recursive calls append triangles.
  There is no \<^verbatim>\<open>break\<close> in the loop.  The first argument bounds the depth of the
  recursion.
\<close>

fun trisect :: "nat \<Rightarrow> tri \<Rightarrow> tglob \<Rightarrow> error + tglob" where
  "trisect 0 t s = Inl OutOfFuel"
| "trisect (Suc k) t s =
     (case fold (\<lambda>p acc.
               case acc of
                 Inl e \<Rightarrow> Inl e
               | Inr (pFound, s0) \<Rightarrow>
                   if subdivides s0 t p
                   then (case trisect k \<lparr>tp1 = tp1 t, tp2 = tp2 t, tp3 = p\<rparr> s0 of
                           Inl e \<Rightarrow> Inl e
                         | Inr s1 \<Rightarrow>
                            (case trisect k \<lparr>tp1 = tp2 t, tp2 = tp3 t, tp3 = p\<rparr> s1 of
                               Inl e \<Rightarrow> Inl e
                             | Inr s2 \<Rightarrow>
                                (case trisect k \<lparr>tp1 = tp3 t, tp2 = tp1 t, tp3 = p\<rparr> s2 of
                                   Inl e \<Rightarrow> Inl e
                                 | Inr s3 \<Rightarrow> Inr (True, s3))))
                   else Inr (pFound, s0))
             (t_points s) (Inr (False, s)) of
        Inl e \<Rightarrow> Inl e
      | Inr (pFound, s') \<Rightarrow> if \<not> pFound then Inr (s'\<lparr>t_tris := t_tris s' @ [t]\<rparr>) else Inr s')"

definition same_sign :: "int \<Rightarrow> int \<Rightarrow> bool" where
  "same_sign a b = (if a \<ge> 0 \<and> b \<ge> 0 then True else if a \<le> 0 \<and> b \<le> 0 then True else False)"

text \<open>
  \<^verbatim>\<open>check_shared_edge\<close>, first half: the counter and the six flags.  The test that
  decides which vertex of \<open>t2\<close> is the shared one compares the \<open>x\<close> of the vertex of
  \<open>t1\<close> with the \<open>x\<close> and then with the \<open>y\<close> of the vertex of \<open>t2\<close>, as the source does.
\<close>

record shares =
  pointCount :: int
  t1p1Share :: bool
  t1p2Share :: bool
  t1p3Share :: bool
  t2p1Share :: bool
  t2p2Share :: bool
  t2p3Share :: bool

definition mark_t2 :: "point \<Rightarrow> tri \<Rightarrow> shares \<Rightarrow> shares" where
  "mark_t2 p t2 f =
     (if px p = px (tp1 t2) \<and> px p = py (tp1 t2) then f\<lparr>t2p1Share := True\<rparr>
      else if px p = px (tp2 t2) \<and> px p = py (tp2 t2) then f\<lparr>t2p2Share := True\<rparr>
      else f\<lparr>t2p3Share := True\<rparr>)"

definition find_shares :: "tri \<Rightarrow> tri \<Rightarrow> shares" where
  "find_shares t1 t2 =
     (let f0 = \<lparr>pointCount = 0, t1p1Share = False, t1p2Share = False, t1p3Share = False,
                t2p1Share = False, t2p2Share = False, t2p3Share = False\<rparr>;
          f1 = (if is_vertex (tp1 t1) t2
                then mark_t2 (tp1 t1) t2 (f0\<lparr>pointCount := pointCount f0 + 1, t1p1Share := True\<rparr>)
                else f0);
          f2 = (if is_vertex (tp2 t1) t2
                then mark_t2 (tp2 t1) t2 (f1\<lparr>pointCount := pointCount f1 + 1, t1p2Share := True\<rparr>)
                else f1)
      in if pointCount f2 = 1 \<and> is_vertex (tp3 t1) t2
         then mark_t2 (tp3 t1) t2 (f2\<lparr>pointCount := pointCount f2 + 1, t1p3Share := True\<rparr>)
         else f2)"

text \<open>
  Second half: the source has nine copies of one block, one for each pair of shared
  edges, that differ in the four points they use: the two ends \<open>s1\<close>, \<open>s2\<close> of the
  shared edge of \<open>t1\<close>, the third vertex \<open>a\<close> of \<open>t1\<close>, and the vertex \<open>b\<close> of \<open>t2\<close> the
  flags leave over.  The block returns \<^verbatim>\<open>false\<close> when \<open>s1\<close> and \<open>s2\<close> are on the same
  side of the line \<open>a b\<close>, and sets \<open>t1 = (s1, a, b)\<close>, \<open>t2 = (s2, a, b)\<close> and returns
  \<^verbatim>\<open>true\<close> when \<^verbatim>\<open>abs(d2) < abs(d1)\<close>.  The function returns the flag and the two
  triangles it was given by reference.
\<close>

definition flip_block :: "tri \<Rightarrow> tri \<Rightarrow> point \<Rightarrow> point \<Rightarrow> point \<Rightarrow> point \<Rightarrow> bool \<times> tri \<times> tri" where
  "flip_block t1 t2 s1 s2 a b =
     (let d1 = pythagorean s1 s2 in
      if same_sign (dist_line a b s1) (dist_line a b s2) then (False, t1, t2)
      else (let d2 = pythagorean a b in
            if \<bar>d2\<bar> < \<bar>d1\<bar>
            then (True, \<lparr>tp1 = s1, tp2 = a, tp3 = b\<rparr>, \<lparr>tp1 = s2, tp2 = a, tp3 = b\<rparr>)
            else (False, t1, t2)))"

definition other_t2 :: "shares \<Rightarrow> tri \<Rightarrow> point" where
  "other_t2 f t2 =
     (if t2p1Share f \<and> t2p2Share f then tp3 t2
      else if t2p1Share f \<and> t2p3Share f then tp2 t2
      else tp1 t2)"

definition check_shared_edge :: "tri \<Rightarrow> tri \<Rightarrow> bool \<times> tri \<times> tri" where
  "check_shared_edge t1 t2 =
     (let f = find_shares t1 t2 in
      if pointCount f = 2
      then (if t1p1Share f \<and> t1p2Share f
            then flip_block t1 t2 (tp1 t1) (tp2 t1) (tp3 t1) (other_t2 f t2)
            else if t1p1Share f \<and> t1p3Share f
            then flip_block t1 t2 (tp1 t1) (tp3 t1) (tp2 t1) (other_t2 f t2)
            else flip_block t1 t2 (tp2 t1) (tp3 t1) (tp1 t1) (other_t2 f t2))
      else (False, t1, t2))"

text \<open>
  \<^verbatim>\<open>tri_cleanup\<close>.  Both range-based \<^verbatim>\<open>for\<close> loops declare their variable by value
  (\<^verbatim>\<open>for (tri t1 : global.tris)\<close>), so \<^verbatim>\<open>check_shared_edge\<close> writes to the two copies:
  the copy \<open>t1\<close> lives through the inner loop, the copy \<open>t2\<close> is fresh in each round,
  and \<^verbatim>\<open>global.tris\<close> is never written.  The function returns the state and the
  counter \<^verbatim>\<open>trisCleaned\<close> it prints.
\<close>

definition cleanup_inner :: "tri list \<Rightarrow> tri \<Rightarrow> int \<Rightarrow> int" where
  "cleanup_inner tris t1 trisCleaned =
     snd (fold (\<lambda>t2 (t1c, c). case check_shared_edge t1c t2 of
                                 (flipped, t1', t2') \<Rightarrow> (t1', if flipped then c + 1 else c))
            tris (t1, trisCleaned))"

definition tri_cleanup :: "tglob \<Rightarrow> tglob \<times> int" where
  "tri_cleanup s = (s, fold (cleanup_inner (t_tris s)) (t_tris s) 0)"

text \<open>\<^verbatim>\<open>triangulation\<close>; \<^verbatim>\<open>INT_MAX\<close> is the largest 32-bit \<^verbatim>\<open>int\<close>.\<close>

definition INT_MAX :: int where
  "INT_MAX = 2147483647"

definition mid_step :: "tglob \<Rightarrow> point \<Rightarrow> point option \<times> int \<Rightarrow> point option \<times> int" where
  "mid_step s p acc =
     (if \<not> on_edge s p
      then (let d = pythagorean p \<lparr>px = t_w s sdiv 2, py = t_h s sdiv 2\<rparr> in
            if d < snd acc then (Some p, d) else acc)
      else acc)"

fun trisect_all :: "nat \<Rightarrow> point \<Rightarrow> edge list \<Rightarrow> tglob \<Rightarrow> error + tglob" where
  "trisect_all fuel pMid [] s = Inr s"
| "trisect_all fuel pMid (e # es) s =
     (case trisect fuel \<lparr>tp1 = ep1 e, tp2 = ep2 e, tp3 = pMid\<rparr> s of
        Inl err \<Rightarrow> Inl err
      | Inr s1 \<Rightarrow> trisect_all fuel pMid es s1)"

text \<open>
  The result is the state after the call, the counter of \<^verbatim>\<open>tri_cleanup\<close> and the two
  numbers printed at the end.  With fewer than three points the function returns
  before it prints.
\<close>

definition triangulation :: "nat \<Rightarrow> tglob \<Rightarrow> error + (tglob \<times> (int \<times> nat \<times> nat) option)" where
  "triangulation fuel s =
     (if length (t_points s) < 3 then Inr (s, None)
      else (case convex_hull_t fuel (s\<lparr>t_tris := []\<rparr>) of
              Inl e \<Rightarrow> Inl e
            | Inr s1 \<Rightarrow>
               (let found = fold (mid_step s1) (t_points s1) (None, INT_MAX) in
                case (if snd found = INT_MAX
                      then (case t_edges s1 of [] \<Rightarrow> Inl EmptyVector | e # _ \<Rightarrow> Inr (ep1 e))
                      else (case fst found of None \<Rightarrow> Inl UninitialisedRead | Some p \<Rightarrow> Inr p)) of
                  Inl e \<Rightarrow> Inl e
                | Inr pMid \<Rightarrow>
                   (case trisect_all fuel pMid (t_edges s1) s1 of
                      Inl e \<Rightarrow> Inl e
                    | Inr s2 \<Rightarrow>
                       (let s3 = s2\<lparr>t_points := [], t_edges := []\<rparr>;
                            cleaned = tri_cleanup s3
                        in Inr (fst cleaned,
                                Some (snd cleaned, length (t_points (fst cleaned)),
                                      length (t_tris (fst cleaned)))))))))"


section \<open>Notions for the proofs\<close>

text \<open>
  Vectors of the integer plane with their cross and dot product.  The score
  \<open>dist_line p1 p2 q\<close> is the cross product of \<open>p2 - p1\<close> and \<open>q - p1\<close>: positive when \<open>q\<close> is
  to the left of the directed line from \<open>p1\<close> to \<open>p2\<close>.  \<open>turn a b\<close> says that \<open>b\<close> is
  reached from \<open>a\<close> by a clockwise rotation of less than a half turn, and
  \<open>supports pts p s\<close> that no point of \<open>pts\<close> is to the left of the line through \<open>p\<close>
  with direction \<open>s\<close>.
\<close>

type_synonym vec2 = "int \<times> int"

definition cross :: "vec2 \<Rightarrow> vec2 \<Rightarrow> int" where
  "cross a b = fst a * snd b - snd a * fst b"

definition dot :: "vec2 \<Rightarrow> vec2 \<Rightarrow> int" where
  "dot a b = fst a * fst b + snd a * snd b"

definition turn :: "vec2 \<Rightarrow> vec2 \<Rightarrow> bool" where
  "turn a b \<longleftrightarrow> cross a b < 0 \<or> (cross a b = 0 \<and> dot a b > 0)"

definition vec :: "point \<Rightarrow> point \<Rightarrow> vec2" where
  "vec p q = (px q - px p, py q - py p)"

definition supports :: "point list \<Rightarrow> point \<Rightarrow> vec2 \<Rightarrow> bool" where
  "supports pts p s \<longleftrightarrow> (\<forall>q\<in>set pts. cross s (vec p q) \<le> 0)"

text \<open>
  The edges one call of \<^verbatim>\<open>quick_hull\<close> appends, as a function of the points and the two
  ends alone; \<open>left_count\<close> is the number of points with a positive score.
\<close>

fun hull_edges :: "nat \<Rightarrow> point list \<Rightarrow> point \<Rightarrow> point \<Rightarrow> edge list option" where
  "hull_edges 0 points p1 p2 = None"
| "hull_edges (Suc k) points p1 p2 =
     (if snd (find_max points p1 p2) = 0 then Some [\<lparr>ep1 = p1, ep2 = p2\<rparr>]
      else (case hull_edges k points p1 (fst (find_max points p1 p2)) of
              None \<Rightarrow> None
            | Some es1 \<Rightarrow>
               (case hull_edges k points (fst (find_max points p1 p2)) p2 of
                  None \<Rightarrow> None
                | Some es2 \<Rightarrow> Some (es1 @ es2))))"

definition left_count :: "point list \<Rightarrow> point \<Rightarrow> point \<Rightarrow> nat" where
  "left_count pts p1 p2 = length (filter (\<lambda>p. dist_line p1 p2 p > 0) pts)"



text \<open>
  The state \<^verbatim>\<open>main\<close> sets up in each program, with the given points in
  \<^verbatim>\<open>global.points\<close>; the pool \<^verbatim>\<open>global.coords\<close> of all window coordinates, which only
  \<^verbatim>\<open>random\<close> and \<^verbatim>\<open>increment_n\<close> read, is left empty.
\<close>

definition start_glob :: "point list \<Rightarrow> glob" where
  "start_glob pts =
     \<lparr>g_w = 1000, g_h = 800, g_n = 100, g_points = pts, g_coords = [], g_edges = [],
      g_mouseDraw = False, g_shuffled = False, g_clusters = 5, g_clustering = False\<rparr>"

definition start_tglob :: "point list \<Rightarrow> tglob" where
  "start_tglob pts =
     \<lparr>t_w = 1000, t_h = 800, t_n = 10, t_points = pts, t_coords = [], t_edges = [],
      t_tris = [], t_mouseDraw = False, t_shuffled = False\<rparr>"

definition pt :: "int \<Rightarrow> int \<Rightarrow> point" where
  "pt a b = \<lparr>px = a, py = b\<rparr>"

definition square5 :: "point list" where
  "square5 = [pt 0 0, pt 4 0, pt 4 4, pt 0 4, pt 2 2]"

definition tr :: "point \<Rightarrow> point \<Rightarrow> point \<Rightarrow> tri" where
  "tr a b c = \<lparr>tp1 = a, tp2 = b, tp3 = c\<rparr>"

text \<open>
  For the properties of \<^verbatim>\<open>trisect\<close>: the three recursive calls made for one point, the
  same for a list of points in turn, and one round of the loop as a function of its
  own.  \<open>frame s s'\<close> says that \<open>s'\<close> is \<open>s\<close> with triangles appended.
\<close>

definition trisect_at :: "nat \<Rightarrow> tri \<Rightarrow> point \<Rightarrow> tglob \<Rightarrow> error + tglob" where
  "trisect_at k t p s =
     (case trisect k \<lparr>tp1 = tp1 t, tp2 = tp2 t, tp3 = p\<rparr> s of
        Inl e \<Rightarrow> Inl e
      | Inr s1 \<Rightarrow>
         (case trisect k \<lparr>tp1 = tp2 t, tp2 = tp3 t, tp3 = p\<rparr> s1 of
            Inl e \<Rightarrow> Inl e
          | Inr s2 \<Rightarrow> trisect k \<lparr>tp1 = tp3 t, tp2 = tp1 t, tp3 = p\<rparr> s2))"

fun trisect_each :: "nat \<Rightarrow> tri \<Rightarrow> point list \<Rightarrow> tglob \<Rightarrow> error + tglob" where
  "trisect_each k t [] s = Inr s"
| "trisect_each k t (p # ps) s =
     (case trisect_at k t p s of Inl e \<Rightarrow> Inl e | Inr s1 \<Rightarrow> trisect_each k t ps s1)"

definition trisect_step ::
  "nat \<Rightarrow> tri \<Rightarrow> point \<Rightarrow> error + (bool \<times> tglob) \<Rightarrow> error + (bool \<times> tglob)" where
  "trisect_step k t p acc =
     (case acc of
        Inl e \<Rightarrow> Inl e
      | Inr (pFound, s0) \<Rightarrow>
          if subdivides s0 t p
          then (case trisect_at k t p s0 of Inl e \<Rightarrow> Inl e | Inr s3 \<Rightarrow> Inr (True, s3))
          else Inr (pFound, s0))"

text \<open>
  The trisection as the specification words it: the first point of the scan that
  qualifies subdivides the triangle and the scan stops there.
\<close>

fun trisect_spec :: "nat \<Rightarrow> tri \<Rightarrow> tglob \<Rightarrow> error + tglob" where
  "trisect_spec 0 t s = Inl OutOfFuel"
| "trisect_spec (Suc k) t s =
     (case find (subdivides s t) (t_points s) of
        None \<Rightarrow> Inr (s\<lparr>t_tris := t_tris s @ [t]\<rparr>)
      | Some p \<Rightarrow>
         (case trisect_spec k \<lparr>tp1 = tp1 t, tp2 = tp2 t, tp3 = p\<rparr> s of
            Inl e \<Rightarrow> Inl e
          | Inr s1 \<Rightarrow>
             (case trisect_spec k \<lparr>tp1 = tp2 t, tp2 = tp3 t, tp3 = p\<rparr> s1 of
                Inl e \<Rightarrow> Inl e
              | Inr s2 \<Rightarrow> trisect_spec k \<lparr>tp1 = tp3 t, tp2 = tp1 t, tp3 = p\<rparr> s2)))"

definition frame :: "tglob \<Rightarrow> tglob \<Rightarrow> bool" where
  "frame s s' \<longleftrightarrow> (\<exists>ts. s' = s\<lparr>t_tris := t_tris s @ ts\<rparr>)"

text \<open>
  A list of edges is a chain when each edge starts where the one before it ends.
  \<open>hull_of\<close> is the list of edges one call of \<^verbatim>\<open>convex_hull\<close> appends and
  \<open>peel_layers\<close> the loop of \<^verbatim>\<open>peel\<close>, both as functions of the values they read:
  the points, \<^verbatim>\<open>global.w\<close> and \<^verbatim>\<open>global.edges\<close>.
\<close>

fun chain :: "edge list \<Rightarrow> bool" where
  "chain [] = True"
| "chain [e] = True"
| "chain (e # f # es) = (ep2 e = ep1 f \<and> chain (f # es))"

definition hull_of :: "nat \<Rightarrow> int \<Rightarrow> point list \<Rightarrow> error + edge list" where
  "hull_of fuel w pts =
     (if length pts < 3 then Inr []
      else if px (find_min_point w pts) = w \<or> px (find_max_point pts) = - 1
      then Inl UninitialisedRead
      else (case hull_edges fuel pts (find_min_point w pts) (find_max_point pts) of
              None \<Rightarrow> Inl OutOfFuel
            | Some es1 \<Rightarrow>
               (case hull_edges fuel pts (find_max_point pts) (find_min_point w pts) of
                  None \<Rightarrow> Inl OutOfFuel
                | Some es2 \<Rightarrow> Inr (es1 @ es2))))"

fun peel_layers ::
  "nat \<Rightarrow> int \<Rightarrow> point list \<Rightarrow> edge list list \<Rightarrow> edge list \<Rightarrow>
     error + (point list \<times> edge list list \<times> edge list)"
where
  "peel_layers 0 w pts ls es = Inl OutOfFuel"
| "peel_layers (Suc k) w pts ls es =
     (if length pts > 2
      then (case hull_of k w pts of
              Inl e \<Rightarrow> Inl e
            | Inr new \<Rightarrow>
                peel_layers k w (filter (\<lambda>p. \<not> pointExists (es @ new) p) pts)
                  (ls @ [new]) (es @ new))
      else Inr (pts, ls, es))"

definition pts7 :: "point list" where
  "pts7 = [pt 0 0, pt 8 0, pt 8 8, pt 0 8, pt 2 3, pt 5 2, pt 4 6]"

definition busy_glob :: glob where
  "busy_glob = (start_glob (rev square5))\<lparr>g_n := 7, g_clusters := 2, g_mouseDraw := True\<rparr>"

text \<open>
  For the correctness of the hull: the points a list of edges touches; a chain that
  ends where it starts; a hull vertex of a list of points, that is a point at which
  some linear functional is strictly greater than at every other point of the list;
  and a list of points none of which lies on a line through two others that has the
  whole list on one side (no three points in a row along the boundary of the hull).
\<close>

definition vertices :: "edge list \<Rightarrow> point set" where
  "vertices es = ep1 ` set es \<union> ep2 ` set es"

definition closed_chain :: "edge list \<Rightarrow> bool" where
  "closed_chain es \<longleftrightarrow> es \<noteq> [] \<and> chain es \<and> ep2 (last es) = ep1 (hd es)"

definition exposed :: "point list \<Rightarrow> point \<Rightarrow> bool" where
  "exposed pts p \<longleftrightarrow>
     (\<exists>a b. \<forall>q\<in>set pts. q \<noteq> p \<longrightarrow> a * px q + b * py q < a * px p + b * py p)"

definition no_flat_boundary :: "point list \<Rightarrow> bool" where
  "no_flat_boundary pts \<longleftrightarrow>
     (\<forall>a\<in>set pts. \<forall>b\<in>set pts. a \<noteq> b \<and> (\<forall>q\<in>set pts. dist_line a b q \<le> 0) \<longrightarrow>
        (\<forall>q\<in>set pts. dist_line a b q = 0 \<longrightarrow> q = a \<or> q = b))"

definition flat5 :: "point list" where
  "flat5 = [pt 0 0, pt 4 0, pt 4 4, pt 0 4, pt 2 0]"

definition tie5 :: "point list" where
  "tie5 = [pt 0 0, pt 4 0, pt 2 4, pt 0 4, pt 4 4]"

text \<open>
  Areas by the shoelace formula, doubled so that they stay integers: of a triangle,
  and of the polygon a closed chain of edges runs around.  \<open>fan pMid e\<close> is the
  triangle \<^verbatim>\<open>triangulation\<close> builds from a hull edge and the middle point.
\<close>

definition shoelace :: "point \<Rightarrow> point \<Rightarrow> point \<Rightarrow> int" where
  "shoelace a b c = px a * (py b - py c) + px b * (py c - py a) + px c * (py a - py b)"

definition tri_area2 :: "tri \<Rightarrow> int" where
  "tri_area2 t = \<bar>shoelace (tp1 t) (tp2 t) (tp3 t)\<bar>"

definition polygon_area2 :: "edge list \<Rightarrow> int" where
  "polygon_area2 es = \<bar>\<Sum>e\<leftarrow>es. px (ep1 e) * py (ep2 e) - px (ep2 e) * py (ep1 e)\<bar>"

definition fan :: "point \<Rightarrow> edge \<Rightarrow> tri" where
  "fan pMid e = \<lparr>tp1 = ep1 e, tp2 = ep2 e, tp3 = pMid\<rparr>"

text \<open>
  For the growth loop of \<^verbatim>\<open>cluster_peel\<close>: the number of values of an \<^verbatim>\<open>int\<close>, and the
  points met by the scans numbered \<open>js\<close> of a loop that starts at radius \<open>d\<close>.
\<close>

definition radii :: nat where
  "radii = 2 ^ 32"

definition rings :: "point \<Rightarrow> int \<Rightarrow> point list \<Rightarrow> nat list \<Rightarrow> point list" where
  "rings seed d pts js =
     concat (map (\<lambda>j. filter (\<lambda>p. pythagorean seed p = int32 (d + int j)) pts) js)"

text \<open>
  A square with three inner points: \<open>(12,12)\<close> is the nearest to the middle of the
  window, \<open>(8,3)\<close> and \<open>(11,5)\<close> lie in the triangle between it and the lower side.
\<close>

definition fan7 :: "point list" where
  "fan7 = [pt 0 0, pt 20 0, pt 20 20, pt 0 20, pt 12 12, pt 8 3, pt 11 5]"

text \<open>
  Coordinates between 0 and 10000, ten times the window of the programs.
\<close>

definition in_window :: "point \<Rightarrow> bool" where
  "in_window p \<longleftrightarrow> 0 \<le> px p \<and> px p \<le> 10000 \<and> 0 \<le> py p \<and> py p \<le> 10000"

section \<open>The arithmetic stays within the 32-bit range\<close>

text \<open>
  For points with coordinates between 0 and 10000 every product and sum the source
  computes for a score or a squared distance is below \<open>2^31\<close> in absolute value, so
  the \<^verbatim>\<open>int\<close> arithmetic of the source agrees with the integers of the model.
\<close>

lemma prod_bound:
  fixes a b :: int
  assumes "\<bar>a\<bar> \<le> 10000" and "\<bar>b\<bar> \<le> 10000"
  shows "\<bar>a * b\<bar> \<le> 100000000"
proof -
  have "\<bar>a * b\<bar> = \<bar>a\<bar> * \<bar>b\<bar>" by (rule abs_mult)
  also have "\<dots> \<le> 10000 * 10000" using assms by (intro mult_mono) simp_all
  finally show ?thesis by simp
qed

lemma scores_fit_in_int:
  assumes "in_window p1" and "in_window p2" and "in_window p3"
  shows "\<bar>(py p1 - py p2) * px p3\<bar> \<le> 100000000 \<and> \<bar>(px p2 - px p1) * py p3\<bar> \<le> 100000000 \<and>
         \<bar>px p1 * py p2\<bar> \<le> 100000000 \<and> \<bar>py p1 * px p2\<bar> \<le> 100000000 \<and>
         \<bar>dist_line p1 p2 p3\<bar> < 2 ^ 31 \<and>
         (px p2 - px p1) * (px p2 - px p1) + (py p2 - py p1) * (py p2 - py p1) < 2 ^ 31"
proof -
  have a: "\<bar>(py p1 - py p2) * px p3\<bar> \<le> 100000000"
    using assms by (intro prod_bound) (auto simp: in_window_def)
  have b: "\<bar>(px p2 - px p1) * py p3\<bar> \<le> 100000000"
    using assms by (intro prod_bound) (auto simp: in_window_def)
  have c: "\<bar>px p1 * py p2\<bar> \<le> 100000000"
    using assms by (intro prod_bound) (auto simp: in_window_def)
  have d: "\<bar>py p1 * px p2\<bar> \<le> 100000000"
    using assms by (intro prod_bound) (auto simp: in_window_def)
  have e: "\<bar>(px p2 - px p1) * (px p2 - px p1)\<bar> \<le> 100000000"
    using assms by (intro prod_bound) (auto simp: in_window_def)
  have f: "\<bar>(py p2 - py p1) * (py p2 - py p1)\<bar> \<le> 100000000"
    using assms by (intro prod_bound) (auto simp: in_window_def)
  have p: "(2::int) ^ 31 = 2147483648" by simp
  have "\<bar>dist_line p1 p2 p3\<bar> < 2 ^ 31" using a b c d unfolding dist_line_def p by linarith
  moreover have "(px p2 - px p1) * (px p2 - px p1) + (py p2 - py p1) * (py p2 - py p1) < 2 ^ 31"
    using e f unfolding p by linarith
  ultimately show ?thesis using a b c d by blast
qed


section \<open>Termination of the hull recursion\<close>

lemma cross_three: "cross a b * cross s c = cross a c * cross s b - cross b c * cross s a"
  by (simp add: cross_def algebra_simps)

lemma dot_cross: "dot a b * cross a c - cross a b * dot a c = dot a a * cross b c"
  by (simp add: cross_def dot_def algebra_simps)

lemma turn_nonzero: "turn s u \<Longrightarrow> dot s s > 0"
proof -
  assume t: "turn s u"
  have "fst s \<noteq> 0 \<or> snd s \<noteq> 0" using t by (auto simp: turn_def cross_def dot_def)
  then have "fst s * fst s + snd s * snd s > 0"
    by (simp add: sum_squares_gt_zero_iff)
  then show ?thesis by (simp add: dot_def)
qed

lemma turn_nonzero2: "turn u s \<Longrightarrow> dot s s > 0"
proof -
  assume t: "turn u s"
  have "fst s \<noteq> 0 \<or> snd s \<noteq> 0" using t by (auto simp: turn_def cross_def dot_def)
  then have "fst s * fst s + snd s * snd s > 0"
    by (simp add: sum_squares_gt_zero_iff)
  then show ?thesis by (simp add: dot_def)
qed

lemma cross_anti: "cross a b = - cross b a"
  by (simp add: cross_def)

lemma dot_commute: "dot a b = dot b a"
  by (simp add: dot_def mult.commute)

lemma wedge_left:
  assumes sw: "cross s w \<le> 0" and sv: "cross s v \<le> 0" and t: "turn s u"
    and uv: "cross u v > 0" and vw: "cross v w > 0"
  shows "cross u w > 0"
proof (rule ccontr)
  assume "\<not> cross u w > 0"
  then have uw: "cross u w \<le> 0" by simp
  have su: "cross s u \<le> 0" using t by (auto simp: turn_def)
  have L: "cross u v * cross s w \<le> 0" using uv sw by (simp add: mult_nonneg_nonpos)
  have R1: "cross u w * cross s v \<ge> 0" using uw sv by (simp add: mult_nonpos_nonpos)
  have R2: "cross v w * cross s u \<le> 0" using vw su by (simp add: mult_nonneg_nonpos)
  have "cross v w * cross s u = cross u w * cross s v - cross u v * cross s w"
    using cross_three [of u v s w] by simp
  with L R1 R2 have "cross v w * cross s u = 0" by linarith
  with vw have su0: "cross s u = 0" by simp
  with t have du: "dot s u > 0" by (simp add: turn_def)
  have "dot s u * cross s v = dot s s * cross u v"
    using dot_cross [of s u v] su0 by simp
  moreover have "dot s s * cross u v > 0" using turn_nonzero [OF t] uv by simp
  moreover have "dot s u * cross s v \<le> 0" using du sv by (simp add: mult_nonneg_nonpos)
  ultimately show False by linarith
qed

text \<open>The mirror image of the lemma above, seen from the second end of the line.\<close>

lemma wedge_right:
  assumes sw: "cross s w \<le> 0" and sv: "cross s v \<le> 0"
    and t: "cross u s > 0 \<or> (cross u s = 0 \<and> dot u s < 0)"
    and vu: "cross v u > 0" and wv: "cross w v > 0"
  shows "cross w u > 0"
proof (rule ccontr)
  assume "\<not> cross w u > 0"
  then have uw: "cross u w \<ge> 0" using cross_anti [of u w] by simp
  have su: "cross s u \<le> 0" using t cross_anti [of s u] by auto
  have uv: "cross u v < 0" using vu cross_anti [of u v] by simp
  have vw: "cross v w < 0" using wv cross_anti [of v w] by simp
  have L: "cross u v * cross s w \<ge> 0" using uv sw by (simp add: mult_nonpos_nonpos)
  have R1: "cross u w * cross s v \<le> 0" using uw sv by (simp add: mult_nonneg_nonpos)
  have R2: "cross v w * cross s u \<ge> 0" using vw su by (simp add: mult_nonpos_nonpos)
  have "cross v w * cross s u = cross u w * cross s v - cross u v * cross s w"
    using cross_three [of u v s w] by simp
  with L R1 R2 have "cross v w * cross s u = 0" by linarith
  with vw have su0: "cross s u = 0" by simp
  with t have du: "dot s u < 0" using cross_anti [of s u] dot_commute [of s u] by auto
  have ss: "dot s s > 0"
  proof -
    have "fst s \<noteq> 0 \<or> snd s \<noteq> 0" using du by (auto simp: dot_def)
    then have "fst s * fst s + snd s * snd s > 0" by (simp add: sum_squares_gt_zero_iff)
    then show ?thesis by (simp add: dot_def)
  qed
  have "dot s u * cross s v = dot s s * cross u v"
    using dot_cross [of s u v] su0 by simp
  moreover have "dot s s * cross u v < 0" using ss uv by (simp add: mult_pos_neg)
  moreover have "dot s u * cross s v \<ge> 0" using du sv by (simp add: mult_nonpos_nonpos)
  ultimately show False by linarith
qed

lemma turn_keep_left:
  assumes sv: "cross s v \<le> 0" and t: "turn s u" and uv: "cross u v > 0"
  shows "turn s v"
proof (cases "cross s v = 0")
  case False
  with sv show ?thesis by (simp add: turn_def)
next
  case True
  have "dot s v * cross s u = dot s s * cross v u"
    using dot_cross [of s v u] True by simp
  moreover have "dot s s * cross v u < 0"
    using turn_nonzero [OF t] uv cross_anti [of v u] by (simp add: mult_pos_neg)
  ultimately have neg: "dot s v * cross s u < 0" by simp
  have "cross s u \<le> 0" using t by (auto simp: turn_def)
  with neg have "dot s v > 0"
    by (metis linorder_not_less mult_nonpos_nonpos)
  with True show ?thesis by (simp add: turn_def)
qed

lemma turn_keep_right:
  assumes su': "cross u' s \<le> 0" and t: "turn u s" and uu': "cross u u' < 0"
  shows "turn u' s"
proof (cases "cross u' s = 0")
  case False
  with su' show ?thesis by (simp add: turn_def)
next
  case True
  then have s0: "cross s u' = 0" using cross_anti [of s u'] by simp
  have "dot s u' * cross s u = dot s s * cross u' u"
    using dot_cross [of s u' u] s0 by simp
  moreover have "dot s s * cross u' u > 0"
    using turn_nonzero2 [OF t] uu' cross_anti [of u' u] by (simp add: mult_pos_neg)
  ultimately have pos: "dot s u' * cross s u > 0" by simp
  have "cross s u \<ge> 0" using t cross_anti [of s u] by (auto simp: turn_def)
  with pos have "dot s u' > 0"
    by (metis linorder_not_less mult_nonpos_nonneg)
  with True show ?thesis by (simp add: turn_def dot_commute)
qed


lemma dist_cross: "dist_line p1 p2 q = cross (vec p1 p2) (vec p1 q)"
  by (simp add: dist_line_def cross_def vec_def algebra_simps)

lemma dist_from_p2: "dist_line p1 p2 q = cross (vec p2 q) (vec p2 p1)"
  by (simp add: dist_line_def cross_def vec_def algebra_simps)

lemma dist_shift: "cross (vec p1 p2) (vec r q) = dist_line p1 p2 q - dist_line p1 p2 r"
  by (simp add: dist_line_def cross_def vec_def algebra_simps)

lemma dist_same1: "same_point p p1 \<Longrightarrow> dist_line p1 p2 p = 0"
  by (simp add: dist_line_def same_point_def algebra_simps)

lemma dist_same2: "same_point p p2 \<Longrightarrow> dist_line p1 p2 p = 0"
  by (simp add: dist_line_def same_point_def algebra_simps)

lemma dist_end1 [simp]: "dist_line p1 p2 p1 = 0"
  by (simp add: dist_line_def algebra_simps)

lemma dist_end2 [simp]: "dist_line p1 p2 p2 = 0"
  by (simp add: dist_line_def algebra_simps)

lemma fold_max_step:
  "0 \<le> snd acc \<Longrightarrow>
     snd acc \<le> snd (fold (max_step p1 p2) pts acc) \<and>
     (\<forall>q\<in>set pts. dist_line p1 p2 q \<le> snd (fold (max_step p1 p2) pts acc)) \<and>
     (fold (max_step p1 p2) pts acc = acc \<or>
      (fst (fold (max_step p1 p2) pts acc) \<in> set pts \<and>
       dist_line p1 p2 (fst (fold (max_step p1 p2) pts acc)) = snd (fold (max_step p1 p2) pts acc) \<and>
       snd acc < snd (fold (max_step p1 p2) pts acc)))"
proof (induction pts arbitrary: acc)
  case Nil
  then show ?case by simp
next
  case (Cons p ps)
  let ?a = "max_step p1 p2 p acc"
  have a0: "0 \<le> snd ?a" using Cons.prems by (simp add: max_step_def Let_def)
  have mono: "snd acc \<le> snd ?a" by (simp add: max_step_def Let_def)
  have here: "dist_line p1 p2 p \<le> snd ?a"
    using Cons.prems by (auto simp: max_step_def Let_def dist_same1 dist_same2)
  have step: "?a = acc \<or> (?a = (p, dist_line p1 p2 p) \<and> snd acc < dist_line p1 p2 p)"
    by (simp add: max_step_def Let_def)
  note ih = Cons.IH [OF a0]
  have f: "fold (max_step p1 p2) (p # ps) acc = fold (max_step p1 p2) ps ?a" by simp
  show ?case unfolding f using ih mono here step
    by (smt (verit) fst_conv snd_conv list.set_intros(1) list.set_intros(2) set_ConsD order_trans)
qed

lemma find_max_nonneg: "0 \<le> snd (find_max pts p1 p2)"
  using fold_max_step [of "(\<lparr>px = 0, py = 0\<rparr>, 0)" p1 p2 pts] by (simp add: find_max_def)

lemma find_max_bound: "q \<in> set pts \<Longrightarrow> dist_line p1 p2 q \<le> snd (find_max pts p1 p2)"
  using fold_max_step [of "(\<lparr>px = 0, py = 0\<rparr>, 0)" p1 p2 pts] by (simp add: find_max_def)

lemma find_max_attained:
  "snd (find_max pts p1 p2) \<noteq> 0 \<Longrightarrow>
     fst (find_max pts p1 p2) \<in> set pts \<and>
     dist_line p1 p2 (fst (find_max pts p1 p2)) = snd (find_max pts p1 p2)"
  using fold_max_step [of "(\<lparr>px = 0, py = 0\<rparr>, 0)" p1 p2 pts] by (auto simp: find_max_def)

lemma filter_length_less:
  assumes "\<And>q. q \<in> set xs \<Longrightarrow> P q \<Longrightarrow> Q q" and "r \<in> set xs" and "Q r" and "\<not> P r"
  shows "length (filter P xs) < length (filter Q xs)"
proof -
  have "filter P xs = filter P (filter Q xs)"
    using assms(1) by (induction xs) auto
  moreover have "length (filter P (filter Q xs)) < length (filter Q xs)"
    by (rule length_filter_less [of r]) (use assms in auto)
  ultimately show ?thesis by simp
qed

lemma left_count_first:
  assumes s1: "supports pts p1 s1" and t1: "turn s1 (vec p1 p2)"
    and r: "r \<in> set pts" and d: "dist_line p1 p2 r > 0"
  shows "left_count pts p1 r < left_count pts p1 p2"
  unfolding left_count_def
proof (rule filter_length_less [of _ _ _ r])
  fix q assume q: "q \<in> set pts" and l: "0 < dist_line p1 r q"
  show "0 < dist_line p1 p2 q"
    unfolding dist_cross
  proof (rule wedge_left [of s1 _ "vec p1 r"])
    show "cross s1 (vec p1 q) \<le> 0" using s1 q by (simp add: supports_def)
    show "cross s1 (vec p1 r) \<le> 0" using s1 r by (simp add: supports_def)
    show "turn s1 (vec p1 p2)" by (rule t1)
    show "0 < cross (vec p1 p2) (vec p1 r)" using d by (simp add: dist_cross)
    show "0 < cross (vec p1 r) (vec p1 q)" using l by (simp add: dist_cross)
  qed
qed (use r d in auto)

lemma vec_flip: "cross a (vec p q) = - cross a (vec q p)" "cross (vec p q) a = - cross (vec q p) a"
  "dot (vec p q) a = - dot (vec q p) a"
  by (simp_all add: cross_def dot_def vec_def algebra_simps)

lemma left_count_second:
  assumes s2: "supports pts p2 s2" and t2: "turn (vec p1 p2) s2"
    and r: "r \<in> set pts" and d: "dist_line p1 p2 r > 0"
  shows "left_count pts r p2 < left_count pts p1 p2"
  unfolding left_count_def
proof (rule filter_length_less [of _ _ _ r])
  fix q assume q: "q \<in> set pts" and l: "0 < dist_line r p2 q"
  show "0 < dist_line p1 p2 q"
    unfolding dist_from_p2 [of p1 p2 q]
  proof (rule wedge_right [of s2 _ "vec p2 r"])
    show "cross s2 (vec p2 q) \<le> 0" using s2 q by (simp add: supports_def)
    show "cross s2 (vec p2 r) \<le> 0" using s2 r by (simp add: supports_def)
    show "0 < cross (vec p2 p1) s2 \<or> cross (vec p2 p1) s2 = 0 \<and> dot (vec p2 p1) s2 < 0"
      using t2 vec_flip(2) [of p2 p1 s2] vec_flip(3) [of p2 p1 s2] by (auto simp: turn_def)
    show "0 < cross (vec p2 r) (vec p2 p1)" using d by (simp add: dist_from_p2)
    show "0 < cross (vec p2 q) (vec p2 r)" using l by (simp add: dist_from_p2)
  qed
qed (use r d in auto)

lemma hull_edges_terminates:
  assumes "supports pts p1 s1" and "supports pts p2 s2"
    and "turn s1 (vec p1 p2)" and "turn (vec p1 p2) s2"
    and "left_count pts p1 p2 < k"
  shows "\<exists>es. hull_edges k pts p1 p2 = Some es"
  using assms
proof (induction k arbitrary: p1 p2 s1 s2)
  case 0
  then show ?case by simp
next
  case (Suc k)
  let ?r = "fst (find_max pts p1 p2)"
  let ?u = "vec p1 p2"
  show ?case
  proof (cases "snd (find_max pts p1 p2) = 0")
    case True
    then show ?thesis by simp
  next
    case False
    then have r: "?r \<in> set pts" and dr: "dist_line p1 p2 ?r = snd (find_max pts p1 p2)"
      using find_max_attained by blast+
    have d: "dist_line p1 p2 ?r > 0" using False dr find_max_nonneg [of pts p1 p2] by linarith
    have sr: "supports pts ?r ?u"
      unfolding supports_def dist_shift using find_max_bound [of _ pts p1 p2] dr by auto
    have c1: "left_count pts p1 ?r < k"
      using left_count_first [OF Suc.prems(1) Suc.prems(3) r d] Suc.prems(5) by linarith
    have c2: "left_count pts ?r p2 < k"
      using left_count_second [OF Suc.prems(2) Suc.prems(4) r d] Suc.prems(5) by linarith
    have t1: "turn s1 (vec p1 ?r)"
    proof (rule turn_keep_left [OF _ Suc.prems(3)])
      show "cross s1 (vec p1 ?r) \<le> 0" using Suc.prems(1) r by (simp add: supports_def)
      show "0 < cross ?u (vec p1 ?r)" using d by (simp add: dist_cross)
    qed
    have t2: "turn (vec p1 ?r) ?u"
      using d cross_anti [of "vec p1 ?r" ?u] by (simp add: turn_def dist_cross)
    have t3: "turn ?u (vec ?r p2)"
      using d by (simp add: turn_def dist_shift)
    have t4: "turn (vec ?r p2) s2"
    proof (rule turn_keep_right [OF _ Suc.prems(4)])
      have "cross s2 (vec p2 ?r) \<le> 0" using Suc.prems(2) r by (simp add: supports_def)
      then show "cross (vec ?r p2) s2 \<le> 0"
        using vec_flip(1) [of s2 p2 ?r] cross_anti [of s2 "vec ?r p2"] by simp
      show "cross ?u (vec ?r p2) < 0" using d by (simp add: dist_shift)
    qed
    obtain es1 where e1: "hull_edges k pts p1 ?r = Some es1"
      using Suc.IH [OF Suc.prems(1) sr t1 t2 c1] by blast
    obtain es2 where e2: "hull_edges k pts ?r p2 = Some es2"
      using Suc.IH [OF sr Suc.prems(2) t3 t4 c2] by blast
    show ?thesis using False e1 e2 by simp
  qed
qed


lemma quick_hull_edges:
  "quick_hull k pts p1 p2 s =
     (case hull_edges k pts p1 p2 of
        None \<Rightarrow> Inl OutOfFuel
      | Some es \<Rightarrow> Inr (s\<lparr>g_edges := g_edges s @ es\<rparr>))"
proof (induction k arbitrary: p1 p2 s)
  case 0
  then show ?case by simp
next
  case (Suc k)
  show ?case
    by (simp add: Suc.IH Let_def split: option.splits)
qed

lemma quick_hull_t_edges:
  "quick_hull_t k p1 p2 s =
     (case hull_edges k (t_points s) p1 p2 of
        None \<Rightarrow> Inl OutOfFuel
      | Some es \<Rightarrow> Inr (s\<lparr>t_edges := t_edges s @ es\<rparr>))"
proof (induction k arbitrary: p1 p2 s)
  case 0
  then show ?case by simp
next
  case (Suc k)
  show ?case
    by (simp add: Suc.IH Let_def split: option.splits)
qed

lemma fold_min_step:
  "px (fold min_step pts m0) \<le> px m0 \<and>
   (\<forall>q\<in>set pts. px (fold min_step pts m0) \<le> px q) \<and>
   (fold min_step pts m0 = m0 \<or> (fold min_step pts m0 \<in> set pts \<and> px (fold min_step pts m0) < px m0))"
proof (induction pts arbitrary: m0)
  case Nil
  then show ?case by simp
next
  case (Cons p ps)
  show ?case using Cons.IH [of "min_step p m0"]
    by (auto simp: min_step_def split: if_splits)
qed

lemma fold_max_x_step:
  "px m0 \<le> px (fold max_x_step pts m0) \<and>
   (\<forall>q\<in>set pts. px q \<le> px (fold max_x_step pts m0)) \<and>
   (fold max_x_step pts m0 = m0 \<or> (fold max_x_step pts m0 \<in> set pts \<and> px m0 < px (fold max_x_step pts m0)))"
proof (induction pts arbitrary: m0)
  case Nil
  then show ?case by simp
next
  case (Cons p ps)
  show ?case using Cons.IH [of "max_x_step p m0"]
    by (auto simp: max_x_step_def split: if_splits)
qed

lemma find_min_point_le: "q \<in> set pts \<Longrightarrow> px (find_min_point w pts) \<le> px q"
  using fold_min_step [of pts "\<lparr>px = w, py = 0\<rparr>"] by (simp add: find_min_point_def)

lemma find_max_point_ge: "q \<in> set pts \<Longrightarrow> px q \<le> px (find_max_point pts)"
  using fold_max_x_step [of "\<lparr>px = - 1, py = 0\<rparr>" pts] by (simp add: find_max_point_def)

lemma find_min_point_mem: "px (find_min_point w pts) \<noteq> w \<Longrightarrow> find_min_point w pts \<in> set pts"
  using fold_min_step [of pts "\<lparr>px = w, py = 0\<rparr>"] by (auto simp: find_min_point_def)

lemma find_max_point_mem: "px (find_max_point pts) \<noteq> - 1 \<Longrightarrow> find_max_point pts \<in> set pts"
  using fold_max_x_step [of "\<lparr>px = - 1, py = 0\<rparr>" pts] by (auto simp: find_max_point_def)

lemma left_count_le: "left_count pts p1 p2 \<le> length pts"
  by (simp add: left_count_def)

lemma vertical_no_left:
  assumes "\<forall>q\<in>set pts. px q = px p1" and "px p2 = px p1"
  shows "snd (find_max pts p1 p2) = 0"
proof (rule ccontr)
  assume n: "snd (find_max pts p1 p2) \<noteq> 0"
  let ?r = "fst (find_max pts p1 p2)"
  from find_max_attained [OF n] have r: "?r \<in> set pts" and d: "dist_line p1 p2 ?r = snd (find_max pts p1 p2)"
    by blast+
  have "px ?r = px p1" using assms(1) r by blast
  then have "dist_line p1 p2 ?r = 0" using assms(2) by (simp add: dist_line_def algebra_simps)
  with d n show False by simp
qed

lemma hull_edges_upper:
  assumes b: "\<forall>q\<in>set pts. px m \<le> px q \<and> px q \<le> px M" and k: "length pts < k"
  shows "\<exists>es. hull_edges k pts m M = Some es"
proof (cases "px m < px M")
  case True
  show ?thesis
  proof (rule hull_edges_terminates [of pts m "(0, 1)" M "(0, - 1)"])
    show "supports pts m (0, 1)" using b by (simp add: supports_def cross_def vec_def)
    show "supports pts M (0, - 1)" using b by (simp add: supports_def cross_def vec_def)
    show "turn (0, 1) (vec m M)" using True by (simp add: turn_def cross_def vec_def)
    show "turn (vec m M) (0, - 1)" using True by (simp add: turn_def cross_def vec_def)
    show "left_count pts m M < k" using k left_count_le [of pts m M] by linarith
  qed
next
  case False
  have "\<forall>q\<in>set pts. px q = px m" using b False by force
  moreover have "px M = px m \<or> pts = []" using b False by (cases pts) force+
  ultimately have "snd (find_max pts m M) = 0"
    using vertical_no_left [of pts m M] by (auto simp: find_max_def)
  moreover obtain j where "k = Suc j" using k by (cases k) auto
  ultimately show ?thesis by simp
qed

lemma hull_edges_lower:
  assumes b: "\<forall>q\<in>set pts. px m \<le> px q \<and> px q \<le> px M" and k: "length pts < k"
  shows "\<exists>es. hull_edges k pts M m = Some es"
proof (cases "px m < px M")
  case True
  show ?thesis
  proof (rule hull_edges_terminates [of pts M "(0, - 1)" m "(0, 1)"])
    show "supports pts m (0, 1)" using b by (simp add: supports_def cross_def vec_def)
    show "supports pts M (0, - 1)" using b by (simp add: supports_def cross_def vec_def)
    show "turn (0, - 1) (vec M m)" using True by (simp add: turn_def cross_def vec_def)
    show "turn (vec M m) (0, 1)" using True by (simp add: turn_def cross_def vec_def)
    show "left_count pts M m < k" using k left_count_le [of pts M m] by linarith
  qed
next
  case False
  have "\<forall>q\<in>set pts. px q = px M" using b False by force
  moreover have "px m = px M \<or> pts = []" using b False by (cases pts) force+
  ultimately have "snd (find_max pts M m) = 0"
    using vertical_no_left [of pts M m] by (auto simp: find_max_def)
  moreover obtain j where "k = Suc j" using k by (cases k) auto
  ultimately show ?thesis by simp
qed

lemma scans_bound:
  "\<forall>q\<in>set pts. px (find_min_point w pts) \<le> px q \<and> px q \<le> px (find_max_point pts)"
  using find_min_point_le find_max_point_ge by blast





section \<open>Distances\<close>

lemma isqrt_correct:
  "0 \<le> n \<Longrightarrow> 0 \<le> isqrt n \<and> isqrt n * isqrt n \<le> n \<and> n < (isqrt n + 1) * (isqrt n + 1)"
proof (induction n rule: isqrt.induct)
  case (1 n)
  show ?case
  proof (cases "n < 4")
    case True
    then have "isqrt n = (if n \<le> 0 then 0 else 1)" by (simp add: isqrt.simps [of n])
    then show ?thesis using True "1.prems" by simp
  next
    case False
    let ?q = "isqrt (n div 4)"
    have ih: "0 \<le> ?q \<and> ?q * ?q \<le> n div 4 \<and> n div 4 < (?q + 1) * (?q + 1)"
      using "1.IH" False "1.prems" by simp
    have lo: "(2 * ?q) * (2 * ?q) \<le> n"
    proof -
      have "4 * (?q * ?q) \<le> 4 * (n div 4)" using ih by simp
      also have "\<dots> \<le> n" by presburger
      finally show ?thesis by (simp add: algebra_simps)
    qed
    have hi: "n < (2 * ?q + 2) * (2 * ?q + 2)"
    proof -
      have "n div 4 + 1 \<le> (?q + 1) * (?q + 1)" using ih by simp
      then have "4 * (n div 4 + 1) \<le> 4 * ((?q + 1) * (?q + 1))" by simp
      moreover have "n < 4 * (n div 4 + 1)" by presburger
      ultimately have "n < 4 * ((?q + 1) * (?q + 1))" by linarith
      then show ?thesis by (simp add: algebra_simps)
    qed
    show ?thesis
    proof (cases "(2 * ?q + 1) * (2 * ?q + 1) \<le> n")
      case True
      then have "isqrt n = 2 * ?q + 1" using False by (simp add: isqrt.simps [of n] Let_def)
      then show ?thesis using True hi ih by (simp add: algebra_simps)
    next
      case b: False
      then have "isqrt n = 2 * ?q" using False by (simp add: isqrt.simps [of n] Let_def)
      then show ?thesis using b lo ih by (simp add: algebra_simps)
    qed
  qed
qed



lemma pythagorean_nonneg: "0 \<le> pythagorean p q"
  unfolding pythagorean_def using isqrt_correct by simp



lemma mark_t2_keeps [simp]:
  "pointCount (mark_t2 p t2 f) = pointCount f"
  "t1p1Share (mark_t2 p t2 f) = t1p1Share f"
  "t1p2Share (mark_t2 p t2 f) = t1p2Share f"
  "t1p3Share (mark_t2 p t2 f) = t1p3Share f"
  by (simp_all add: mark_t2_def)







section \<open>The cleanup pass\<close>

text \<open>
  C2.  On two triangles with the common edge from \<open>(0,0)\<close> to \<open>(10,10)\<close> and the
  third vertices \<open>(4,6)\<close> and \<open>(6,4)\<close>, \<^verbatim>\<open>check_shared_edge\<close> flips: it hands back the
  two triangles on the short diagonal.  \<^verbatim>\<open>tri_cleanup\<close> counts the flip (twice, once
  from each side), yet the triangles in \<^verbatim>\<open>global.tris\<close> are the old ones: the new
  ones were written to the loop's copies.
\<close>

theorem cleanup_drops_flips:
  "check_shared_edge (tr (pt 0 0) (pt 10 10) (pt 4 6)) (tr (pt 0 0) (pt 10 10) (pt 6 4)) =
     (True, tr (pt 0 0) (pt 4 6) (pt 6 4), tr (pt 10 10) (pt 4 6) (pt 6 4)) \<and>
   tri_cleanup ((start_tglob [])
       \<lparr>t_tris := [tr (pt 0 0) (pt 10 10) (pt 4 6), tr (pt 0 0) (pt 10 10) (pt 6 4)]\<rparr>) =
     ((start_tglob [])
       \<lparr>t_tris := [tr (pt 0 0) (pt 10 10) (pt 4 6), tr (pt 0 0) (pt 10 10) (pt 6 4)]\<rparr>, 2)"
  by code_simp

section \<open>Trisection\<close>

text \<open>
  C4.  The point \<open>(2,2)\<close> and the triangle \<open>(0,0), (1,1), (3,2)\<close>: the point is none of
  the vertices and lies within the extents; its three scores are \<open>0\<close>, \<open>1\<close> and \<open>-2\<close>,
  so two of them have opposite signs and the point is outside the triangle (on the
  line through the first edge, beyond its end).  \<^verbatim>\<open>point_in_triangle\<close> compares the
  first score with the second and with the third, never the second with the third,
  and accepts the point; \<^verbatim>\<open>trisect\<close> subdivides the triangle at it.
\<close>

theorem point_in_triangle_accepts_outside:
  "dist_line (pt 0 0) (pt 1 1) (pt 2 2) = 0 \<and> dist_line (pt 1 1) (pt 3 2) (pt 2 2) = 1 \<and>
   dist_line (pt 3 2) (pt 0 0) (pt 2 2) = - 2 \<and>
   point_in_triangle (pt 2 2) (tr (pt 0 0) (pt 1 1) (pt 3 2)) \<and>
   subdivides (start_tglob [pt 0 0, pt 1 1, pt 3 2, pt 2 2]) (tr (pt 0 0) (pt 1 1) (pt 3 2)) (pt 2 2) \<and>
   map_sum id t_tris
     (trisect 3 (tr (pt 0 0) (pt 1 1) (pt 3 2)) (start_tglob [pt 0 0, pt 1 1, pt 3 2, pt 2 2])) =
     Inr [tr (pt 0 0) (pt 1 1) (pt 2 2), tr (pt 1 1) (pt 3 2) (pt 2 2),
          tr (pt 3 2) (pt 0 0) (pt 1 1), tr (pt 0 0) (pt 2 2) (pt 1 1),
          tr (pt 2 2) (pt 3 2) (pt 1 1)]"
  by code_simp


section \<open>The scan of trisect\<close>

lemma frame_refl: "frame s s"
  unfolding frame_def by (rule exI [of _ "[]"]) simp

lemma frame_trans: "frame s s1 \<Longrightarrow> frame s1 s2 \<Longrightarrow> frame s s2"
proof -
  assume "frame s s1" and "frame s1 s2"
  then obtain ts us where a: "s1 = s\<lparr>t_tris := t_tris s @ ts\<rparr>"
    and b: "s2 = s1\<lparr>t_tris := t_tris s1 @ us\<rparr>"
    unfolding frame_def by blast
  have "s2 = s\<lparr>t_tris := t_tris s @ (ts @ us)\<rparr>" using a b by simp
  then show ?thesis unfolding frame_def by blast
qed

lemma three_frames:
  assumes ih: "\<And>t s s'. trisect k t s = Inr s' \<Longrightarrow> frame s s'"
    and r: "trisect_at k t p s = Inr s'"
  shows "frame s s'"
proof -
  obtain s1 where a: "trisect k \<lparr>tp1 = tp1 t, tp2 = tp2 t, tp3 = p\<rparr> s = Inr s1"
    using r unfolding trisect_at_def by (cases "trisect k \<lparr>tp1 = tp1 t, tp2 = tp2 t, tp3 = p\<rparr> s") auto
  obtain s2 where b: "trisect k \<lparr>tp1 = tp2 t, tp2 = tp3 t, tp3 = p\<rparr> s1 = Inr s2"
    using r a unfolding trisect_at_def
    by (cases "trisect k \<lparr>tp1 = tp2 t, tp2 = tp3 t, tp3 = p\<rparr> s1") auto
  have c: "trisect k \<lparr>tp1 = tp3 t, tp2 = tp1 t, tp3 = p\<rparr> s2 = Inr s'"
    using r a b unfolding trisect_at_def by simp
  show ?thesis using frame_trans [OF frame_trans [OF ih [OF a] ih [OF b]] ih [OF c]] .
qed

lemma frame_push: "frame s (s\<lparr>t_tris := t_tris s @ [t]\<rparr>)"
  unfolding frame_def by blast

lemma frame_points: "frame s s' \<Longrightarrow> t_points s' = t_points s"
proof -
  assume "frame s s'"
  then obtain ts where "s' = s\<lparr>t_tris := t_tris s @ ts\<rparr>" unfolding frame_def by blast
  then show ?thesis by simp
qed

lemma frame_subdivides: "frame s s' \<Longrightarrow> subdivides s' t = subdivides s t"
proof -
  assume "frame s s'"
  then obtain ts where "s' = s\<lparr>t_tris := t_tris s @ ts\<rparr>" unfolding frame_def by blast
  then have "t_w s' = t_w s" and "t_h s' = t_h s" by simp_all
  then have "in_extents s' t = in_extents s t" by (intro ext) (simp add: in_extents_def)
  then show ?thesis by (intro ext) (simp add: subdivides_def)
qed

lemma trisect_step_eq:
  "trisect (Suc k) t s =
     (case fold (trisect_step k t) (t_points s) (Inr (False, s)) of
        Inl e \<Rightarrow> Inl e
      | Inr (pFound, s') \<Rightarrow> if \<not> pFound then Inr (s'\<lparr>t_tris := t_tris s' @ [t]\<rparr>) else Inr s')"
proof -
  have "(\<lambda>p acc.
               case acc of
                 Inl e \<Rightarrow> Inl e
               | Inr (pFound, s0) \<Rightarrow>
                   if subdivides s0 t p
                   then (case trisect k \<lparr>tp1 = tp1 t, tp2 = tp2 t, tp3 = p\<rparr> s0 of
                           Inl e \<Rightarrow> Inl e
                         | Inr s1 \<Rightarrow>
                            (case trisect k \<lparr>tp1 = tp2 t, tp2 = tp3 t, tp3 = p\<rparr> s1 of
                               Inl e \<Rightarrow> Inl e
                             | Inr s2 \<Rightarrow>
                                (case trisect k \<lparr>tp1 = tp3 t, tp2 = tp1 t, tp3 = p\<rparr> s2 of
                                   Inl e \<Rightarrow> Inl e
                                 | Inr s3 \<Rightarrow> Inr (True, s3))))
                   else Inr (pFound, s0)) = trisect_step k t"
  proof (intro ext)
    fix p and acc :: "error + (bool \<times> tglob)"
    show "(case acc of
                 Inl e \<Rightarrow> Inl e
               | Inr (pFound, s0) \<Rightarrow>
                   if subdivides s0 t p
                   then (case trisect k \<lparr>tp1 = tp1 t, tp2 = tp2 t, tp3 = p\<rparr> s0 of
                           Inl e \<Rightarrow> Inl e
                         | Inr s1 \<Rightarrow>
                            (case trisect k \<lparr>tp1 = tp2 t, tp2 = tp3 t, tp3 = p\<rparr> s1 of
                               Inl e \<Rightarrow> Inl e
                             | Inr s2 \<Rightarrow>
                                (case trisect k \<lparr>tp1 = tp3 t, tp2 = tp1 t, tp3 = p\<rparr> s2 of
                                   Inl e \<Rightarrow> Inl e
                                 | Inr s3 \<Rightarrow> Inr (True, s3))))
                   else Inr (pFound, s0)) = trisect_step k t p acc"
    proof (cases acc)
      case (Inl e)
      then show ?thesis by (simp add: trisect_step_def)
    next
      case (Inr r)
      obtain b s0 where r: "r = (b, s0)" by (cases r)
      show ?thesis unfolding Inr r trisect_step_def trisect_at_def
        by (simp split: sum.splits)
    qed
  qed
  then show ?thesis unfolding trisect.simps(2) by (simp only:)
qed

lemma fold_step_Inl: "fold (trisect_step k t) ps (Inl e) = Inl e"
  by (induction ps) (simp_all add: trisect_step_def)

lemma fold_step_frame:
  assumes at: "\<forall>p s s'. trisect_at k t p s = Inr s' \<longrightarrow> frame s s'"
  shows "fold (trisect_step k t) ps (Inr (b, s)) = Inr (b', s') \<Longrightarrow> frame s s'"
proof (induction ps arbitrary: b s)
  case Nil
  then show ?case by (simp add: frame_refl)
next
  case (Cons p ps)
  show ?case
  proof (cases "trisect_step k t p (Inr (b, s))")
    case (Inl e)
    then show ?thesis using Cons.prems by (simp add: fold_step_Inl)
  next
    case (Inr r)
    obtain b1 s1 where r: "r = (b1, s1)" by (cases r)
    have "frame s s1"
    proof (cases "subdivides s t p")
      case True
      then have "trisect_at k t p s = Inr s1" using Inr r
        by (simp add: trisect_step_def split: sum.splits)
      then show ?thesis using at by blast
    next
      case False
      then have "s1 = s" using Inr r by (simp add: trisect_step_def)
      then show ?thesis by (simp add: frame_refl)
    qed
    moreover have "frame s1 s'" using Cons.IH [of b1 s1] Cons.prems Inr r by simp
    ultimately show ?thesis by (rule frame_trans)
  qed
qed

lemma trisect_frame: "trisect k t s = Inr s' \<Longrightarrow> frame s s'"
proof (induction k arbitrary: t s s')
  case 0
  then show ?case by simp
next
  case (Suc k)
  have at: "\<forall>p s s'. trisect_at k t p s = Inr s' \<longrightarrow> frame s s'"
    using three_frames [of k] Suc.IH by blast
  show ?case
  proof (cases "fold (trisect_step k t) (t_points s) (Inr (False, s))")
    case (Inl e)
    then show ?thesis using Suc.prems by (simp add: trisect_step_eq del: trisect.simps)
  next
    case (Inr r)
    obtain b1 s1 where r: "r = (b1, s1)" by (cases r)
    have f: "frame s s1" using fold_step_frame [of k t, OF at] Inr r by blast
    have "s' = s1 \<or> s' = s1\<lparr>t_tris := t_tris s1 @ [t]\<rparr>"
      using Suc.prems Inr r by (simp add: trisect_step_eq del: trisect.simps split: if_splits)
    then show ?thesis using f frame_trans [OF f frame_push [of s1 t]] by blast
  qed
qed

lemma trisect_at_frame: "trisect_at k t p s = Inr s' \<Longrightarrow> frame s s'"
  using three_frames [of k t p s s'] trisect_frame by blast

lemma fold_step_filter:
  "fold (trisect_step k t) ps (Inr (b, s)) =
     (case trisect_each k t (filter (subdivides s t) ps) s of
        Inl e \<Rightarrow> Inl e
      | Inr s' \<Rightarrow> Inr (b \<or> filter (subdivides s t) ps \<noteq> [], s'))"
proof (induction ps arbitrary: b s)
  case Nil
  then show ?case by simp
next
  case (Cons p ps)
  show ?case
  proof (cases "subdivides s t p")
    case False
    then have "trisect_step k t p (Inr (b, s)) = Inr (b, s)" by (simp add: trisect_step_def)
    then have "fold (trisect_step k t) (p # ps) (Inr (b, s)) = fold (trisect_step k t) ps (Inr (b, s))"
      by simp
    moreover have "filter (subdivides s t) (p # ps) = filter (subdivides s t) ps"
      using False by simp
    ultimately show ?thesis using Cons.IH [of b s] by (simp only:)
  next
    case True
    show ?thesis
    proof (cases "trisect_at k t p s")
      case (Inl e)
      then have "trisect_step k t p (Inr (b, s)) = Inl e" using True by (simp add: trisect_step_def)
      then have "fold (trisect_step k t) (p # ps) (Inr (b, s)) = Inl e" by (simp add: fold_step_Inl)
      then show ?thesis using True Inl by simp
    next
      case (Inr s1)
      have f: "frame s s1" using trisect_at_frame [OF Inr] .
      have same: "filter (subdivides s1 t) ps = filter (subdivides s t) ps"
        using frame_subdivides [OF f] by simp
      have "trisect_step k t p (Inr (b, s)) = Inr (True, s1)"
        using True Inr by (simp add: trisect_step_def)
      then have "fold (trisect_step k t) (p # ps) (Inr (b, s)) =
                   fold (trisect_step k t) ps (Inr (True, s1))" by simp
      moreover have "filter (subdivides s t) (p # ps) = p # filter (subdivides s t) ps"
        using True by simp
      ultimately show ?thesis using Inr same by (simp add: Cons.IH [of True s1] split: sum.splits)
    qed
  qed
qed


text \<open>
  One call of \<^verbatim>\<open>trisect\<close>: every point of the scan that qualifies subdivides the
  triangle, in turn; the triangle is a leaf when none does.
\<close>

lemma trisect_Suc:
  "trisect (Suc k) t s =
     (if filter (subdivides s t) (t_points s) = [] then Inr (s\<lparr>t_tris := t_tris s @ [t]\<rparr>)
      else trisect_each k t (filter (subdivides s t) (t_points s)) s)"
  unfolding trisect_step_eq fold_step_filter
  by (simp split: sum.splits)


text \<open>
  C3.  The square with the corners \<open>(0,0)\<close>, \<open>(20,0)\<close>, \<open>(20,20)\<close>, \<open>(0,20)\<close> and the inner
  points \<open>(12,12)\<close>, \<open>(8,3)\<close>, \<open>(11,5)\<close>.  \<^verbatim>\<open>triangulation\<close> fans the hull around
  \<open>(12,12)\<close>, and the fan triangle \<open>(20,0), (0,0), (12,12)\<close> holds the two other inner
  points.  The scan of \<^verbatim>\<open>trisect\<close> has no \<^verbatim>\<open>break\<close>: the triangle is subdivided at
  \<open>(8,3)\<close> and then once more at \<open>(11,5)\<close>.  It leaves ten triangles of doubled area
  480, where a scan that stops at the first point leaves five of doubled area 240,
  the area of the triangle.  \<^verbatim>\<open>triangulation\<close> ends with 13 triangles of doubled area
  1040 on a hull of doubled area 800, one of them twice in the list.
\<close>

theorem trisect_scan_goes_on:
  "map_sum id (\<lambda>r. (length (t_tris (fst r)), sum_list (map tri_area2 (t_tris (fst r))),
                     distinct (t_tris (fst r))))
     (triangulation 8 (start_tglob fan7)) = Inr (13, 1040, False) \<and>
   map_sum id polygon_area2 (hull_of 8 1000 fan7) = Inr 800 \<and>
   map_sum id (\<lambda>s1. (filter (subdivides s1 (tr (pt 20 0) (pt 0 0) (pt 12 12))) (t_points s1),
                map_sum id (\<lambda>s. (length (t_tris s), sum_list (map tri_area2 (t_tris s))))
                  (trisect 8 (tr (pt 20 0) (pt 0 0) (pt 12 12)) s1),
                map_sum id (\<lambda>s. (length (t_tris s), sum_list (map tri_area2 (t_tris s))))
                  (trisect_spec 8 (tr (pt 20 0) (pt 0 0) (pt 12 12)) s1)))
     (convex_hull_t 8 (start_tglob fan7)) =
     Inr ([pt 8 3, pt 11 5], Inr (10, 480), Inr (5, 240)) \<and>
   tri_area2 (tr (pt 20 0) (pt 0 0) (pt 12 12)) = 240"
  by code_simp


section \<open>Peeling\<close>

lemma convex_hull_of:
  "convex_hull fuel pts s =
     (case hull_of fuel (g_w s) pts of
        Inl e \<Rightarrow> Inl e
      | Inr es \<Rightarrow> Inr (s\<lparr>g_edges := g_edges s @ es\<rparr>))"
  by (simp add: convex_hull_def hull_of_def quick_hull_edges Let_def split: option.splits)

lemma convex_hull_t_of:
  "convex_hull_t fuel s =
     (case hull_of fuel (t_w s) (t_points s) of
        Inl e \<Rightarrow> Inl e
      | Inr es \<Rightarrow> Inr (s\<lparr>t_edges := t_edges s @ es\<rparr>))"
  by (simp add: convex_hull_t_def hull_of_def quick_hull_t_edges Let_def split: option.splits)

lemma peel_loop_layers:
  "peel_loop k pts ls s =
     (case peel_layers k (g_w s) pts ls (g_edges s) of
        Inl e \<Rightarrow> Inl e
      | Inr (rest, ls', es') \<Rightarrow> Inr (rest, ls', s\<lparr>g_edges := es'\<rparr>))"
proof (induction k arbitrary: pts ls s)
  case 0
  then show ?case by simp
next
  case (Suc k)
  show ?case
  proof (cases "length pts > 2")
    case False
    then show ?thesis by simp
  next
    case True
    show ?thesis
    proof (cases "hull_of k (g_w s) pts")
      case (Inl e)
      then show ?thesis using True by (simp add: convex_hull_of)
    next
      case (Inr new)
      let ?s1 = "s\<lparr>g_edges := g_edges s @ new\<rparr>"
      have "peel_loop (Suc k) pts ls s =
              peel_loop k (filter (\<lambda>p. \<not> pointExists (g_edges s @ new) p) pts) (ls @ [new]) ?s1"
        using True Inr by (simp add: convex_hull_of)
      also have "\<dots> = (case peel_layers k (g_w s)
                            (filter (\<lambda>p. \<not> pointExists (g_edges s @ new) p) pts) (ls @ [new])
                            (g_edges s @ new) of
                         Inl e \<Rightarrow> Inl e
                       | Inr (rest, ls', es') \<Rightarrow> Inr (rest, ls', s\<lparr>g_edges := es'\<rparr>))"
        by (simp add: Suc.IH split: sum.splits)
      finally show ?thesis using True Inr by simp
    qed
  qed
qed

lemma peel_layers_shape:
  "peel_layers k w pts ls es = Inr (rest, ls', es') \<Longrightarrow>
     length rest < 3 \<and> (\<exists>new. ls' = ls @ new \<and> es' = es @ concat new)"
proof (induction k arbitrary: pts ls es)
  case 0
  then show ?case by simp
next
  case (Suc k)
  show ?case
  proof (cases "length pts > 2")
    case False
    then have "rest = pts \<and> ls' = ls \<and> es' = es" using Suc.prems by simp
    then show ?thesis using False by simp
  next
    case True
    then obtain new where h: "hull_of k w pts = Inr new"
      and r: "peel_layers k w (filter (\<lambda>p. \<not> pointExists (es @ new) p) pts) (ls @ [new]) (es @ new)
                = Inr (rest, ls', es')"
      using Suc.prems by (cases "hull_of k w pts") auto
    from Suc.IH [OF r] obtain more where
      "length rest < 3" and "ls' = (ls @ [new]) @ more" and "es' = (es @ new) @ concat more"
      by blast
    then have "length rest < 3 \<and> ls' = ls @ (new # more) \<and> es' = es @ concat (new # more)"
      by simp
    then show ?thesis by blast
  qed
qed

lemma chain_append:
  "es1 \<noteq> [] \<Longrightarrow> es2 \<noteq> [] \<Longrightarrow>
     chain (es1 @ es2) = (chain es1 \<and> chain es2 \<and> ep2 (last es1) = ep1 (hd es2))"
proof (induction es1 rule: chain.induct)
  case 1
  then show ?case by simp
next
  case (2 e)
  then show ?case by (cases es2) auto
next
  case (3 e f es)
  then show ?case by auto
qed

lemma hull_edges_chain:
  "hull_edges k pts p1 p2 = Some es \<Longrightarrow>
     es \<noteq> [] \<and> ep1 (hd es) = p1 \<and> ep2 (last es) = p2 \<and> chain es"
proof (induction k arbitrary: p1 p2 es)
  case 0
  then show ?case by simp
next
  case (Suc k)
  let ?r = "fst (find_max pts p1 p2)"
  show ?case
  proof (cases "snd (find_max pts p1 p2) = 0")
    case True
    then have "es = [\<lparr>ep1 = p1, ep2 = p2\<rparr>]" using Suc.prems by simp
    then show ?thesis by simp
  next
    case False
    then obtain es1 es2 where e1: "hull_edges k pts p1 ?r = Some es1"
      and e2: "hull_edges k pts ?r p2 = Some es2" and es: "es = es1 @ es2"
      using Suc.prems by (auto split: option.splits)
    from Suc.IH [OF e1] Suc.IH [OF e2] show ?thesis
      unfolding es by (simp add: chain_append)
  qed
qed

lemma hull_of_start:
  assumes "hull_of k w pts = Inr es" and "2 < length pts"
  shows "\<exists>e\<in>set es. ep1 e = find_min_point w pts" and "find_min_point w pts \<in> set pts"
proof -
  let ?m = "find_min_point w pts" and ?M = "find_max_point pts"
  have ok: "px ?m \<noteq> w" using assms by (auto simp: hull_of_def split: if_splits)
  then show "?m \<in> set pts" by (rule find_min_point_mem)
  obtain es1 es2 where e1: "hull_edges k pts ?m ?M = Some es1" and es: "es = es1 @ es2"
    using assms ok by (auto simp: hull_of_def split: if_splits option.splits)
  from hull_edges_chain [OF e1] have "es1 \<noteq> []" and "ep1 (hd es1) = ?m" by simp_all
  then have "hd es1 \<in> set es \<and> ep1 (hd es1) = ?m" unfolding es by simp
  then show "\<exists>e\<in>set es. ep1 e = ?m" by blast
qed

lemma hull_of_shrinks:
  assumes "hull_of k w pts = Inr new" and "2 < length pts"
  shows "length (filter (\<lambda>p. \<not> pointExists (es @ new) p) pts) < length pts"
proof -
  let ?m = "find_min_point w pts"
  from hull_of_start [OF assms] obtain e where e: "e \<in> set new" "ep1 e = ?m" and m: "?m \<in> set pts"
    by blast
  have "dist_line (ep1 e) (ep2 e) ?m = 0" using e(2) dist_end1 [of ?m "ep2 e"] by simp
  then have "pointExists (es @ new) ?m" using e(1) by (auto simp: pointExists_def list_ex_iff)
  then show ?thesis using m by (intro length_filter_less [of ?m]) auto
qed

lemma hull_of_fuel: "length pts < k \<Longrightarrow> hull_of k w pts \<noteq> Inl OutOfFuel"
  using hull_edges_upper [OF scans_bound, of pts k w] hull_edges_lower [OF scans_bound, of pts k w]
  by (auto simp: hull_of_def)

lemma hull_of_window:
  assumes "\<forall>p\<in>set pts. - 1 < px p \<and> px p < w" and "length pts < k"
  shows "\<exists>es. hull_of k w pts = Inr es"
proof (cases "length pts < 3")
  case True
  then show ?thesis by (simp add: hull_of_def)
next
  case False
  then obtain p where p: "p \<in> set pts" by (cases pts) auto
  have "px (find_min_point w pts) \<le> px p" using p by (rule find_min_point_le)
  moreover have "px p \<le> px (find_max_point pts)" using p by (rule find_max_point_ge)
  ultimately have ok: "px (find_min_point w pts) \<noteq> w \<and> px (find_max_point pts) \<noteq> - 1"
    using assms(1) p by force
  show ?thesis
    using hull_edges_upper [OF scans_bound assms(2), of w] hull_edges_lower [OF scans_bound assms(2), of w]
      ok False
    by (auto simp: hull_of_def)
qed

lemma peel_layers_fuel:
  "length pts + 2 \<le> k \<Longrightarrow> peel_layers k w pts ls es \<noteq> Inl OutOfFuel"
proof (induction k arbitrary: pts ls es)
  case 0
  then show ?case by simp
next
  case (Suc k)
  show ?case
  proof (cases "length pts > 2")
    case False
    then show ?thesis by simp
  next
    case True
    show ?thesis
    proof (cases "hull_of k w pts")
      case (Inl e)
      moreover have "e \<noteq> OutOfFuel" using hull_of_fuel [of pts k w] Suc.prems Inl by auto
      ultimately show ?thesis using True by simp
    next
      case (Inr new)
      have "length (filter (\<lambda>p. \<not> pointExists (es @ new) p) pts) + 2 \<le> k"
        using hull_of_shrinks [OF Inr True, of es] Suc.prems by linarith
      from Suc.IH [OF this] show ?thesis using True Inr by simp
    qed
  qed
qed

lemma peel_layers_window:
  "length pts + 2 \<le> k \<Longrightarrow> \<forall>p\<in>set pts. - 1 < px p \<and> px p < w \<Longrightarrow>
     \<exists>r. peel_layers k w pts ls es = Inr r"
proof (induction k arbitrary: pts ls es)
  case 0
  then show ?case by simp
next
  case (Suc k)
  show ?case
  proof (cases "length pts > 2")
    case False
    then show ?thesis by simp
  next
    case True
    have "length pts < k" using Suc.prems(1) by linarith
    from hull_of_window [OF Suc.prems(2) this] obtain new where h: "hull_of k w pts = Inr new"
      by blast
    have a: "length (filter (\<lambda>p. \<not> pointExists (es @ new) p) pts) + 2 \<le> k"
      using hull_of_shrinks [OF h True, of es] Suc.prems by linarith
    have b: "\<forall>p\<in>set (filter (\<lambda>p. \<not> pointExists (es @ new) p) pts). - 1 < px p \<and> px p < w"
      using Suc.prems(2) by simp
    from Suc.IH [OF a b] show ?thesis using True h by simp
  qed
qed

lemma peel_layers_eq:
  "peel fuel points s =
     (case peel_layers fuel (g_w s) points [] (g_edges s) of
        Inl e \<Rightarrow> Inl e
      | Inr (rest, ls, es) \<Rightarrow>
          Inr (\<lparr>printed_points = length (g_points s), printed_edges = length es,
                remaining = rest, layers = ls\<rparr>,
               if \<not> g_clustering s then s\<lparr>g_edges := es, g_points := []\<rparr> else s\<lparr>g_edges := es\<rparr>))"
  by (simp add: peel_def peel_loop_layers split: sum.splits)


text \<open>
  C6, as the code has it.  With fuel for two more rounds than there are points,
  \<^verbatim>\<open>peel\<close> does not run out of fuel, and it returns when the points are window
  points; it leaves its loop with fewer than three points.  The message it prints
  holds the size of \<^verbatim>\<open>global.points\<close>, which the loop never changes, and the size of
  \<^verbatim>\<open>global.edges\<close>, which by then holds the edges it held at the call followed by the
  edges of every layer.
\<close>

theorem peel_reports_totals:
  assumes "length points + 2 \<le> fuel"
  shows "peel fuel points s \<noteq> Inl OutOfFuel \<and>
         ((\<forall>p\<in>set points. - 1 < px p \<and> px p < g_w s) \<longrightarrow>
            (\<exists>res s'. peel fuel points s = Inr (res, s'))) \<and>
         (\<forall>res s'. peel fuel points s = Inr (res, s') \<longrightarrow>
            length (remaining res) < 3 \<and>
            printed_points res = length (g_points s) \<and>
            printed_edges res = length (g_edges s) + length (concat (layers res)) \<and>
            g_edges s' = g_edges s @ concat (layers res))"
proof -
  have a: "peel fuel points s \<noteq> Inl OutOfFuel"
    using peel_layers_fuel [OF assms, of "g_w s" "[]" "g_edges s"]
    by (auto simp: peel_layers_eq split: sum.splits)
  have b: "(\<forall>p\<in>set points. - 1 < px p \<and> px p < g_w s) \<longrightarrow>
            (\<exists>res s'. peel fuel points s = Inr (res, s'))"
  proof
    assume "\<forall>p\<in>set points. - 1 < px p \<and> px p < g_w s"
    from peel_layers_window [OF assms this, of "[]" "g_edges s"]
    show "\<exists>res s'. peel fuel points s = Inr (res, s')"
      by (auto simp: peel_layers_eq split: sum.splits)
  qed
  have c: "\<forall>res s'. peel fuel points s = Inr (res, s') \<longrightarrow>
            length (remaining res) < 3 \<and>
            printed_points res = length (g_points s) \<and>
            printed_edges res = length (g_edges s) + length (concat (layers res)) \<and>
            g_edges s' = g_edges s @ concat (layers res)"
  proof (intro allI impI)
    fix res s'
    assume p: "peel fuel points s = Inr (res, s')"
    then obtain rest ls es where l: "peel_layers fuel (g_w s) points [] (g_edges s) = Inr (rest, ls, es)"
      by (auto simp: peel_layers_eq split: sum.splits)
    from peel_layers_shape [OF l] have sh: "length rest < 3" "es = g_edges s @ concat ls" by auto
    have "res = \<lparr>printed_points = length (g_points s), printed_edges = length es,
                remaining = rest, layers = ls\<rparr>" and "g_edges s' = es"
      using p l by (auto simp: peel_layers_eq split: if_splits)
    then show "length (remaining res) < 3 \<and>
            printed_points res = length (g_points s) \<and>
            printed_edges res = length (g_edges s) + length (concat (layers res)) \<and>
            g_edges s' = g_edges s @ concat (layers res)"
      using sh by simp
  qed
  show ?thesis using a b c by blast
qed

theorem peel_reports_totals_witness:
  "length pts7 + 2 \<le> 9 \<and>
   list_all (\<lambda>p. - 1 < px p \<and> px p < g_w (start_glob pts7)) pts7 \<and>
   (\<exists>res s'. peel 9 pts7 (start_glob pts7) = Inr (res, s')) \<and>
   map_sum id (\<lambda>r. (printed_points (fst r), printed_edges (fst r), remaining (fst r),
                     map length (layers (fst r)), length (g_edges (snd r))))
     (peel 9 pts7 (start_glob pts7)) = Inr (7, 7, [], [4, 3], 7)"
proof -
  have h: "length pts7 + 2 \<le> 9" by (simp add: pts7_def)
  have w: "\<forall>p\<in>set pts7. - 1 < px p \<and> px p < g_w (start_glob pts7)"
    by (simp add: pts7_def start_glob_def pt_def)
  have v: "map_sum id (\<lambda>r. (printed_points (fst r), printed_edges (fst r), remaining (fst r),
                     map length (layers (fst r)), length (g_edges (snd r))))
     (peel 9 pts7 (start_glob pts7)) = Inr (7, 7, [], [4, 3], 7)"
    by code_simp
  have l: "list_all (\<lambda>p. - 1 < px p \<and> px p < g_w (start_glob pts7)) pts7"
    using w by (simp add: list_all_iff)
  from peel_reports_totals [OF h, of "start_glob pts7"] w
  have "\<exists>res s'. peel 9 pts7 (start_glob pts7) = Inr (res, s')" by blast
  then show ?thesis using h l v by blast
qed

text \<open>
  C6, as the claim has it, fails on a square around a triangle: the last hull is the
  triangle, three points and three edges, and \<^verbatim>\<open>peel\<close> prints 7 points and 7 edges.
\<close>

theorem peel_reports_last_hull_counterexample:
  "map_sum id (\<lambda>r. (printed_points (fst r), printed_edges (fst r),
                     length (last (layers (fst r))), map ep1 (last (layers (fst r)))))
     (peel 9 pts7 (start_glob pts7)) = Inr (7, 7, 3, [pt 2 3, pt 4 6, pt 5 2])"
  by code_simp


text \<open>
  C7, as the code has it.  \<^verbatim>\<open>peel\<close> reads three parts of the global structure:
  \<^verbatim>\<open>global.w\<close>, \<^verbatim>\<open>global.edges\<close> and the size of \<^verbatim>\<open>global.points\<close>.  Two calls on equal
  point sequences in states that agree on these three give equal layers, remaining
  points and printed counts and leave equal edge lists, whatever the other fields
  hold.
\<close>

theorem peel_reads_global_state:
  assumes "g_w s = g_w s'" and "g_edges s = g_edges s'"
    and "length (g_points s) = length (g_points s')"
  shows "map_sum id fst (peel fuel points s) = map_sum id fst (peel fuel points s') \<and>
         map_sum id (\<lambda>r. g_edges (snd r)) (peel fuel points s) =
         map_sum id (\<lambda>r. g_edges (snd r)) (peel fuel points s')"
  using assms by (simp add: peel_layers_eq split: sum.splits)

theorem peel_reads_global_state_witness:
  "g_w (start_glob square5) = g_w busy_glob \<and>
   g_edges (start_glob square5) = g_edges busy_glob \<and>
   length (g_points (start_glob square5)) = length (g_points busy_glob) \<and>
   g_points (start_glob square5) \<noteq> g_points busy_glob \<and>
   map_sum id fst (peel 7 square5 (start_glob square5)) =
   map_sum id fst (peel 7 square5 busy_glob)"
proof -
  have a: "g_w (start_glob square5) = g_w busy_glob" by (simp add: start_glob_def busy_glob_def)
  have b: "g_edges (start_glob square5) = g_edges busy_glob"
    by (simp add: start_glob_def busy_glob_def)
  have c: "length (g_points (start_glob square5)) = length (g_points busy_glob)"
    by (simp add: start_glob_def busy_glob_def)
  have d: "g_points (start_glob square5) \<noteq> g_points busy_glob"
    by (simp add: start_glob_def busy_glob_def square5_def pt_def)
  show ?thesis using a b c d peel_reads_global_state [OF a b c, of 7 square5] by blast
qed

text \<open>
  C7, as the claim has it, fails: on the square with its centre, an edge from \<open>(0,0)\<close>
  to \<open>(4,4)\<close> left in \<^verbatim>\<open>global.edges\<close> takes the centre out of the remaining points
  and adds one to the edge count; and a \<^verbatim>\<open>peel\<close> that follows a \<^verbatim>\<open>convex_hull\<close> of the
  same points prints 8 edges instead of 4.
\<close>

theorem peel_is_pure_counterexample:
  "map_sum id (\<lambda>r. (remaining (fst r), printed_edges (fst r)))
     (peel 7 square5 (start_glob square5)) = Inr ([pt 2 2], 4) \<and>
   map_sum id (\<lambda>r. (remaining (fst r), printed_edges (fst r)))
     (peel 7 square5 ((start_glob square5)\<lparr>g_edges := [\<lparr>ep1 = pt 0 0, ep2 = pt 4 4\<rparr>]\<rparr>)) = Inr ([], 5) \<and>
   map_sum id (\<lambda>s. map_sum id (\<lambda>r. (remaining (fst r), printed_edges (fst r))) (peel 7 square5 s))
     (convex_hull 6 square5 (start_glob square5)) = Inr (Inr ([pt 2 2], 8))"
  by code_simp



section \<open>The growth loop of cluster_peel\<close>

lemma grow_scan_length:
  "length (grow_scan seed d target ps cl) \<le>
     length cl + length (filter (\<lambda>p. pythagorean seed p = d) ps)"
proof (induction ps arbitrary: cl)
  case Nil
  then show ?case by simp
next
  case (Cons p ps)
  show ?case using Cons.IH [of "cl @ [p]"] Cons.IH [of cl] by auto
qed

lemma ring_split:
  "length (filter (\<lambda>p. pythagorean seed p = d) ps) +
   length (filter (\<lambda>p. d + 1 \<le> pythagorean seed p) ps) =
   length (filter (\<lambda>p. d \<le> pythagorean seed p) ps)"
  by (induction ps) auto

lemma pythagorean_self: "pythagorean p p = 0"
  by (simp add: pythagorean_def isqrt.simps [of 0])

lemma filter_misses_one:
  "x \<in> set xs \<Longrightarrow> \<not> P x \<Longrightarrow> length (filter P xs) < length xs"
  by (rule length_filter_less)

lemma int32_id: "- (2 ^ 31) \<le> v \<Longrightarrow> v < 2 ^ 31 \<Longrightarrow> int32 v = v"
  by (simp add: int32_def)

lemma int32_add: "int32 (int32 a + b) = int32 (a + b)"
  unfolding int32_def by (simp add: algebra_simps mod_simps)

lemma int32_range: "- (2 ^ 31) \<le> int32 v \<and> int32 v < 2 ^ 31"
  unfolding int32_def
  using pos_mod_sign [of "2 ^ 32" "v + 2 ^ 31"] pos_mod_bound [of "2 ^ 32" "v + 2 ^ 31"]
  by simp

lemma int32_idem: "int32 (int32 v) = int32 v"
  using int32_add [of v 0] by simp

lemma int32_inj:
  assumes "int32 (d + int i) = int32 (d + int j)" and "i < radii" and "j < radii"
  shows "i = j"
proof -
  have "(d + int i + 2 ^ 31) mod 2 ^ 32 = (d + int j + 2 ^ 31) mod 2 ^ 32"
    using assms(1) by (simp add: int32_def)
  then have "(2::int) ^ 32 dvd (d + int i + 2 ^ 31) - (d + int j + 2 ^ 31)"
    by (simp only: mod_eq_dvd_iff)
  then have dv: "(2::int) ^ 32 dvd int i - int j" by simp
  have b: "\<bar>int i - int j\<bar> < 2 ^ 32" using assms(2,3) by (simp add: radii_def)
  have "int i - int j = 0"
  proof (rule ccontr)
    assume "int i - int j \<noteq> 0"
    from dvd_imp_le_int [OF this dv] show False using b by simp
  qed
  then show ?thesis by simp
qed

lemma int32_hit:
  assumes "- (2 ^ 31) \<le> v" and "v < 2 ^ 31"
  shows "\<exists>j. c * radii \<le> j \<and> j < c * radii + radii \<and> int32 (d + int j) = v"
proof -
  let ?j0 = "nat ((v - d) mod 2 ^ 32)"
  have j0: "int ?j0 = (v - d) mod 2 ^ 32" by simp
  have lt: "?j0 < radii"
    using pos_mod_bound [of "2 ^ 32" "v - d"] by (simp add: radii_def nat_less_iff)
  have "int32 (d + int (c * radii + ?j0)) =
          (d + 2 ^ 31 + (v - d) mod 2 ^ 32 + int c * 2 ^ 32) mod 2 ^ 32 - 2 ^ 31"
    unfolding int32_def by (simp add: radii_def algebra_simps)
  also have "(d + 2 ^ 31 + (v - d) mod 2 ^ 32 + int c * 2 ^ 32) mod 2 ^ 32 =
               (d + 2 ^ 31 + (v - d) mod 2 ^ 32) mod 2 ^ 32"
    by (rule mod_mult_self1)
  also have "\<dots> = (d + 2 ^ 31 + (v - d)) mod 2 ^ 32" by (rule mod_add_right_eq)
  also have "\<dots> = v + 2 ^ 31" using assms by simp
  finally have "int32 (d + int (c * radii + ?j0)) = v" by simp
  then show ?thesis using lt by (intro exI [of _ "c * radii + ?j0"]) simp
qed


lemma filter_disjoint_length:
  "\<forall>x. \<not> (P x \<and> Q x) \<Longrightarrow>
     length (filter P xs) + length (filter Q xs) = length (filter (\<lambda>x. P x \<or> Q x) xs)"
  by (induction xs) auto

lemma rings_length:
  "inj_on (\<lambda>j. int32 (d + int j)) (set js) \<Longrightarrow> distinct js \<Longrightarrow>
     length (rings seed d pts js) =
     length (filter (\<lambda>p. pythagorean seed p \<in> (\<lambda>j. int32 (d + int j)) ` set js) pts)"
proof (induction js)
  case Nil
  then show ?case by (simp add: rings_def)
next
  case (Cons j js)
  let ?r = "\<lambda>j. int32 (d + int j)"
  have ih: "length (rings seed d pts js) =
              length (filter (\<lambda>p. pythagorean seed p \<in> ?r ` set js) pts)"
    using Cons by simp
  have new: "?r j \<notin> ?r ` set js" using Cons.prems by (auto simp: inj_on_def)
  have "length (rings seed d pts (j # js)) =
          length (filter (\<lambda>p. pythagorean seed p = ?r j) pts) + length (rings seed d pts js)"
    by (simp add: rings_def)
  also have "\<dots> = length (filter (\<lambda>p. pythagorean seed p = ?r j \<or> pythagorean seed p \<in> ?r ` set js) pts)"
    unfolding ih using new by (intro filter_disjoint_length) auto
  also have "\<dots> = length (filter (\<lambda>p. pythagorean seed p \<in> ?r ` set (j # js)) pts)"
    by (rule arg_cong [where f = length], rule filter_cong) auto
  finally show ?case .
qed

lemma rings_cycle_length: "length (rings seed d pts [0..<radii]) \<le> length pts"
proof -
  have "inj_on (\<lambda>j. int32 (d + int j)) (set [0..<radii])"
    by (rule inj_onI) (simp add: int32_inj)
  from rings_length [OF this, of seed pts] show ?thesis by simp
qed

lemma rings_member:
  "p \<in> set pts \<Longrightarrow> j \<in> set js \<Longrightarrow> pythagorean seed p = int32 (d + int j) \<Longrightarrow>
     p \<in> set (rings seed d pts js)"
  by (auto simp: rings_def)

lemma rings_subset: "set (rings seed d pts js) \<subseteq> set pts"
  by (auto simp: rings_def)

lemma rings_append: "rings seed d pts (js @ ks) = rings seed d pts js @ rings seed d pts ks"
  by (simp add: rings_def)

lemma rings_grows:
  assumes "seed \<in> set pts"
  shows "c \<le> length (rings seed d pts [0..<c * radii])"
proof (induction c)
  case 0
  then show ?case by simp
next
  case (Suc c)
  have split: "[0..<Suc c * radii] = [0..<c * radii] @ [c * radii..<c * radii + radii]"
    using upt_add_eq_append [of 0 "c * radii" radii] by (simp add: add.commute)
  obtain j where j: "c * radii \<le> j" "j < c * radii + radii" "int32 (d + int j) = 0"
    using int32_hit [of 0 c d] by auto
  have "seed \<in> set (rings seed d pts [c * radii..<c * radii + radii])"
    using assms j by (intro rings_member [of _ _ j]) (simp_all add: pythagorean_self)
  then have "1 \<le> length (rings seed d pts [c * radii..<c * radii + radii])"
    by (cases "rings seed d pts [c * radii..<c * radii + radii]") auto
  then show ?case unfolding split rings_append using Suc by simp
qed

lemma rings_shift:
  "rings seed d pts [0..<Suc n] =
     filter (\<lambda>p. pythagorean seed p = int32 d) pts @ rings seed (int32 (d + 1)) pts [0..<n]"
proof -
  have "[0..<Suc n] = 0 # map Suc [0..<n]" by (simp add: upt_conv_Cons map_Suc_upt del: upt_Suc)
  moreover have "int32 (d + int (Suc j)) = int32 (int32 (d + 1) + int j)" for j
    using int32_add [of "d + 1" "int j"] by (simp add: algebra_simps)
  ultimately show ?thesis by (simp add: rings_def comp_def del: upt_Suc)
qed

lemma grow_scan_take:
  "length cl \<le> target \<Longrightarrow>
     grow_scan seed d target ps cl = take target (cl @ filter (\<lambda>p. pythagorean seed p = d) ps)"
proof (induction ps arbitrary: cl)
  case Nil
  then show ?case by simp
next
  case (Cons p ps)
  show ?case
  proof (cases "length cl \<ge> target")
    case True
    then show ?thesis using Cons.prems by simp
  next
    case False
    then have "length (cl @ [p]) \<le> target" by simp
    from Cons.IH [OF this] Cons.IH [OF Cons.prems] show ?thesis using False by simp
  qed
qed

lemma take_take_append: "take t (take t xs @ ys) = take t (xs @ ys)"
  by (cases "length xs \<le> t") (simp_all add: min_def)

lemma grow_run:
  "length cl \<le> target \<Longrightarrow> int32 d = d \<Longrightarrow>
   target \<le> length (cl @ rings seed d pts [0..<n]) \<Longrightarrow> n \<le> k \<Longrightarrow>
     grow (Suc k) pts seed target d cl = Inr (take target (cl @ rings seed d pts [0..<n]))"
proof (induction n arbitrary: k d cl)
  case 0
  then show ?case by (simp add: rings_def)
next
  case (Suc n)
  show ?case
  proof (cases "length cl < target")
    case False
    then show ?thesis using Suc.prems(1) by simp
  next
    case True
    obtain k' where k: "k = Suc k'" using Suc.prems(4) by (cases k) auto
    let ?ring = "filter (\<lambda>p. pythagorean seed p = d) pts"
    let ?cl = "take target (cl @ ?ring)"
    let ?rest = "rings seed (int32 (d + 1)) pts [0..<n]"
    have sh: "rings seed d pts [0..<Suc n] = ?ring @ ?rest"
      using rings_shift [of seed d pts n] Suc.prems(2) by simp
    have scan: "grow_scan seed d target pts cl = ?cl"
      by (rule grow_scan_take [OF Suc.prems(1)])
    have a: "length ?cl \<le> target" by simp
    have b: "int32 (int32 (d + 1)) = int32 (d + 1)" by (rule int32_idem)
    have c: "target \<le> length (?cl @ ?rest)"
      using Suc.prems(3) unfolding sh by (cases "length (cl @ ?ring) \<le> target") simp_all
    have d: "n \<le> k'" using Suc.prems(4) k by simp
    have "grow (Suc k) pts seed target d cl = grow (Suc k') pts seed target (int32 (d + 1)) ?cl"
      unfolding k using True scan by simp
    also have "\<dots> = Inr (take target (?cl @ ?rest))" by (rule Suc.IH [OF a b c d])
    also have "take target (?cl @ ?rest) = take target (cl @ rings seed d pts [0..<Suc n])"
      unfolding sh using take_take_append [of target "cl @ ?ring" ?rest] by simp
    finally show ?thesis .
  qed
qed

lemma grow_before_overflow:
  "length cl + length (filter (\<lambda>p. d \<le> pythagorean seed p) pts) < target \<Longrightarrow>
   - (2 ^ 31) \<le> d \<Longrightarrow> d + int fuel \<le> 2 ^ 31 \<Longrightarrow>
     grow fuel pts seed target d cl = Inl OutOfFuel"
proof (induction fuel arbitrary: d cl)
  case 0
  then show ?case by simp
next
  case (Suc k)
  have small: "length cl < target" using Suc.prems by linarith
  show ?case
  proof (cases k)
    case 0
    then show ?thesis using small by simp
  next
    case (Suc k')
    have next_d: "int32 (d + 1) = d + 1" using Suc.prems(2,3) Suc by (intro int32_id) simp_all
    have a: "length (grow_scan seed d target pts cl) +
            length (filter (\<lambda>p. d + 1 \<le> pythagorean seed p) pts) < target"
      using grow_scan_length [of seed d target pts cl] ring_split [of seed d pts] Suc.prems(1)
      by linarith
    have b: "- (2 ^ 31) \<le> d + 1" using Suc.prems(2) by simp
    have c: "d + 1 + int k \<le> 2 ^ 31" using Suc.prems(3) by simp
    from Suc.IH [OF a b c] show ?thesis using small next_d by simp
  qed
qed


lemma pythagorean_small:
  assumes "in_window p" and "in_window q"
  shows "pythagorean p q < 2 ^ 31"
proof -
  let ?n = "(px q - px p) * (px q - px p) + (py q - py p) * (py q - py p)"
  have n: "?n < 2 ^ 31" using scores_fit_in_int [OF assms assms(1)] by simp
  have "0 \<le> ?n" by simp
  from isqrt_correct [OF this] have r: "0 \<le> isqrt ?n" "isqrt ?n * isqrt ?n \<le> ?n" by simp_all
  have "isqrt ?n \<le> isqrt ?n * isqrt ?n"
  proof (cases "isqrt ?n = 0")
    case True
    then show ?thesis by simp
  next
    case False
    then have "1 \<le> isqrt ?n" using r(1) by linarith
    then have "isqrt ?n * 1 \<le> isqrt ?n * isqrt ?n" using r(1) by (intro mult_left_mono) simp_all
    then show ?thesis by simp
  qed
  then show ?thesis unfolding pythagorean_def using r(2) n by linarith
qed

lemma grow_fills:
  assumes seed: "seed \<in> set pts" and few: "length pts < target"
    and small: "\<forall>p\<in>set pts. pythagorean seed p < 2 ^ 31"
    and fuel: "target * radii \<le> k"
  shows "\<exists>cl. grow (Suc k) pts seed target 1 [seed] = Inr cl \<and> length cl = target \<and>
              set cl = set pts"
proof -
  let ?all = "[seed] @ rings seed 1 pts [0..<target * radii]"
  let ?first = "[seed] @ rings seed 1 pts [0..<radii]"
  let ?rest = "rings seed 1 pts [radii..<target * radii]"
  have t1: "1 \<le> target" using few by linarith
  have len: "target \<le> length ?all" using rings_grows [OF seed, of target 1] by simp
  have one: "int32 1 = 1" by (rule int32_id) simp_all
  have run: "grow (Suc k) pts seed target 1 [seed] = Inr (take target ?all)"
    using t1 by (intro grow_run [OF _ one len fuel]) simp
  have l: "length (take target ?all) = target" using len by simp
  have sub: "set (take target ?all) \<subseteq> set pts"
    using set_take_subset [of target ?all] rings_subset [of seed 1 pts "[0..<target * radii]"] seed
    by auto
  have "target * radii = radii + (target - 1) * radii" using t1 by (cases target) simp_all
  then have "[0..<target * radii] = [0..<radii] @ [radii..<target * radii]"
    using upt_add_eq_append [of 0 radii "(target - 1) * radii"] by simp
  then have split: "?all = ?first @ ?rest" by (simp add: rings_append)
  have fl: "length ?first \<le> target" using rings_cycle_length [of seed 1 pts] few by simp
  have "take target (?first @ ?rest) = take target ?first @ take (target - length ?first) ?rest"
    by (rule take_append)
  moreover have "take target ?first = ?first" using fl by (rule take_all)
  ultimately have eq: "take target ?all = ?first @ take (target - length ?first) ?rest"
    unfolding split by (simp only:)
  have first: "set ?first \<subseteq> set (take target ?all)"
    unfolding eq by (simp only: set_append Un_upper1)
  have "p \<in> set ?first" if p: "p \<in> set pts" for p
  proof -
    have "- (2 ^ 31) \<le> pythagorean seed p" using pythagorean_nonneg [of seed p] by simp
    moreover have "pythagorean seed p < 2 ^ 31" using small p by blast
    ultimately obtain j where "j < radii" "int32 (1 + int j) = pythagorean seed p"
      using int32_hit [of "pythagorean seed p" 0 1] by auto
    then have "p \<in> set (rings seed 1 pts [0..<radii])"
      using p by (intro rings_member [of _ _ j]) simp_all
    then show ?thesis by simp
  qed
  then have "set pts \<subseteq> set (take target ?all)" using first by blast
  then show ?thesis using run l sub by blast
qed

lemma peel_clustering:
  assumes "length points + 2 \<le> fuel" and "\<forall>p\<in>set points. - 1 < px p \<and> px p < g_w s"
    and "g_clustering s"
  shows "\<exists>res s'. peel fuel points s = Inr (res, s') \<and> g_points s' = g_points s"
proof -
  from peel_layers_window [OF assms(1,2), of "[]" "g_edges s"]
  obtain rest ls es where "peel_layers fuel (g_w s) points [] (g_edges s) = Inr (rest, ls, es)"
    by (metis prod_cases3)
  then show ?thesis using assms(3) by (simp add: peel_layers_eq)
qed


text \<open>
  C8.  The loop that grows a cluster has one exit, the cluster reaching
  \<^verbatim>\<open>global.n / global.clusters\<close> entries; it has no test for the working set being
  used up.  When \<^verbatim>\<open>global.points\<close> holds fewer window points than that number (three
  points drawn with the mouse while \<^verbatim>\<open>global.n\<close> is 100 and \<^verbatim>\<open>global.clusters\<close> is 5),
  the scans of the radii 1 to \<^verbatim>\<open>INT_MAX\<close> do not fill the cluster, so the loop is still
  running when \<^verbatim>\<open>dist++\<close> overflows.  With the counter going round, every pass over
  the \<open>2^32\<close> values of \<^verbatim>\<open>dist\<close> pushes every point once more, and the loop ends with
  a cluster of \<^verbatim>\<open>global.n / global.clusters\<close> entries that holds every point and some
  of them more than once.  \<^verbatim>\<open>peel\<close> runs on it, every point leaves \<^verbatim>\<open>global.points\<close>,
  and the next round reads \<^verbatim>\<open>global.points[0]\<close> of an empty vector.
\<close>

theorem growth_loop_readds_points:
  assumes pts: "g_points s \<noteq> []" and few: "length (g_points s) < cluster_target s"
    and two: "2 \<le> g_clusters s"
    and win: "\<forall>p\<in>set (g_points s). in_window p \<and> px p < g_w s"
    and k: "k < 2 ^ 31" and fuel: "cluster_target s * 2 ^ 32 < fuel"
  shows "grow k (g_points s) (hd (g_points s)) (cluster_target s) 1 [hd (g_points s)] =
           Inl OutOfFuel \<and>
         (\<exists>cl. grow fuel (g_points s) (hd (g_points s)) (cluster_target s) 1 [hd (g_points s)] =
                 Inr cl \<and>
               length cl = cluster_target s \<and> set cl = set (g_points s) \<and> \<not> distinct cl) \<and>
         cluster_peel fuel s = Inl EmptyVector"
proof -
  let ?s = "s\<lparr>g_clustering := True\<rparr>"
  let ?t = "cluster_target s"
  obtain seed rest where sr: "g_points s = seed # rest" using pts by (cases "g_points s") auto
  have seed: "seed \<in> set (g_points s)" by (simp add: sr)
  have hd: "hd (g_points s) = seed" by (simp add: sr)
  have "length (filter (\<lambda>p. 1 \<le> pythagorean seed p) (g_points s)) < length (g_points s)"
    by (rule filter_misses_one [of seed]) (simp_all add: sr pythagorean_self)
  then have st: "length [seed] + length (filter (\<lambda>p. 1 \<le> pythagorean seed p) (g_points s)) < ?t"
    using few by simp
  have a: "grow k (g_points s) seed ?t 1 [seed] = Inl OutOfFuel"
    using k by (intro grow_before_overflow [OF st]) simp_all
  obtain f where f: "fuel = Suc f" using fuel by (cases fuel) auto
  have ff: "?t * radii \<le> f" using fuel f by (simp add: radii_def)
  have small: "\<forall>p\<in>set (g_points s). pythagorean seed p < 2 ^ 31"
    using win seed pythagorean_small by blast
  from grow_fills [OF seed few small ff] obtain cl where
    g: "grow fuel (g_points s) seed ?t 1 [seed] = Inr cl" and l: "length cl = ?t"
    and c: "set cl = set (g_points s)"
    unfolding f by blast
  have nd: "\<not> distinct cl"
  proof
    assume "distinct cl"
    then have "card (set cl) = length cl" by (rule distinct_card)
    moreover have "card (set (g_points s)) \<le> length (g_points s)" by (rule card_length)
    ultimately show False using l c few by simp
  qed
  have pf: "length cl + 2 \<le> fuel"
  proof -
    have "2 \<le> ?t" using few sr by simp
    then have "?t + 2 \<le> ?t * 2 ^ 32" by (cases ?t) simp_all
    then show ?thesis using fuel l by linarith
  qed
  have pw: "\<forall>p\<in>set cl. - 1 < px p \<and> px p < g_w ?s" using win c by (auto simp: in_window_def)
  from peel_clustering [OF pf pw] obtain res s1 where
    p: "peel fuel cl ?s = Inr (res, s1)" and gp: "g_points s1 = g_points s" by auto
  have gone: "filter (\<lambda>p1. \<not> list_ex (\<lambda>p2. same_point p1 p2) cl) (g_points s) = []"
    using c by (auto simp: filter_empty_conv list_ex_iff same_point_def)
  have t: "cluster_target ?s = ?t" by (simp add: cluster_target_def)
  have r1: "cluster_round fuel ?s = Inr (res, s1\<lparr>g_points := []\<rparr>)"
    using g p gp gone by (simp add: cluster_round_def sr t)
  have r2: "cluster_round fuel (s1\<lparr>g_points := []\<rparr>) = Inl EmptyVector"
    by (simp add: cluster_round_def)
  obtain i where i: "nat (g_clusters s) = Suc (Suc i)"
    using two by (cases "nat (g_clusters s)"; cases "nat (g_clusters s) - 1") auto
  have "cluster_peel fuel s = Inl EmptyVector" by (simp add: cluster_peel_def i r1 r2)
  then show ?thesis using a g l c nd unfolding hd by blast
qed

theorem growth_loop_readds_points_witness:
  "grow 2147483647 [pt 0 0, pt 3 4, pt 1 1] (pt 0 0) 20 1 [pt 0 0] = Inl OutOfFuel \<and>
   (\<exists>cl. grow 85899345921 [pt 0 0, pt 3 4, pt 1 1] (pt 0 0) 20 1 [pt 0 0] = Inr cl \<and>
         length cl = 20 \<and> set cl = {pt 0 0, pt 3 4, pt 1 1} \<and> \<not> distinct cl) \<and>
   cluster_peel 85899345921 (start_glob [pt 0 0, pt 3 4, pt 1 1]) = Inl EmptyVector"
proof -
  let ?s = "start_glob [pt 0 0, pt 3 4, pt 1 1]"
  have t: "cluster_target ?s = 20" by code_simp
  have p: "g_points ?s = [pt 0 0, pt 3 4, pt 1 1]" by (simp add: start_glob_def)
  have a: "g_points ?s \<noteq> []" by (simp add: p)
  have b: "length (g_points ?s) < cluster_target ?s" by (simp add: p t)
  have c: "2 \<le> g_clusters ?s" by (simp add: start_glob_def)
  have d: "\<forall>p\<in>set (g_points ?s). in_window p \<and> px p < g_w ?s"
    by (simp add: start_glob_def in_window_def pt_def)
  have e: "(2147483647::nat) < 2 ^ 31" by simp
  have f: "cluster_target ?s * 2 ^ 32 < 85899345921" by (simp add: t)
  from growth_loop_readds_points [OF a b c d e f] show ?thesis by (simp add: p t)
qed


section \<open>Correctness of the hull\<close>

lemma same_point_eq: "same_point p q \<longleftrightarrow> p = q"
  by (auto simp: same_point_def)

lemma hull_edges_sound:
  "hull_edges k pts p1 p2 = Some es \<Longrightarrow> p1 \<in> set pts \<Longrightarrow> p2 \<in> set pts \<Longrightarrow> p1 \<noteq> p2 \<Longrightarrow>
     \<forall>e\<in>set es. ep1 e \<in> set pts \<and> ep2 e \<in> set pts \<and> ep1 e \<noteq> ep2 e \<and>
                (\<forall>q\<in>set pts. dist_line (ep1 e) (ep2 e) q \<le> 0)"
proof (induction k arbitrary: p1 p2 es)
  case 0
  then show ?case by simp
next
  case (Suc k)
  let ?r = "fst (find_max pts p1 p2)"
  show ?case
  proof (cases "snd (find_max pts p1 p2) = 0")
    case True
    then have es: "es = [\<lparr>ep1 = p1, ep2 = p2\<rparr>]" using Suc.prems by simp
    have "\<forall>q\<in>set pts. dist_line p1 p2 q \<le> 0" using find_max_bound [of _ pts p1 p2] True by auto
    then show ?thesis using es Suc.prems by simp
  next
    case False
    then obtain es1 es2 where e1: "hull_edges k pts p1 ?r = Some es1"
      and e2: "hull_edges k pts ?r p2 = Some es2" and es: "es = es1 @ es2"
      using Suc.prems by (auto split: option.splits)
    from find_max_attained [OF False] have r: "?r \<in> set pts"
      and d: "dist_line p1 p2 ?r = snd (find_max pts p1 p2)" by blast+
    have "dist_line p1 p2 ?r \<noteq> 0" using d False by simp
    then have n1: "p1 \<noteq> ?r" and n2: "?r \<noteq> p2"
      using dist_end1 [of p1 p2] dist_end2 [of p1 p2] by auto
    from Suc.IH [OF e1 Suc.prems(2) r n1] Suc.IH [OF e2 r Suc.prems(3) n2]
    show ?thesis unfolding es by auto
  qed
qed

lemma bary:
  "dist_line p1 p2 r * (a * px p + b * py p + c) =
     dist_line p2 r p * (a * px p1 + b * py p1 + c) +
     dist_line r p1 p * (a * px p2 + b * py p2 + c) +
     dist_line p1 p2 p * (a * px r + b * py r + c)"
  by (simp add: dist_line_def algebra_simps)

lemma dist_rot: "dist_line p2 r p = - dist_line r p2 p" "dist_line r p1 p = - dist_line p1 r p"
  by (simp_all add: dist_line_def algebra_simps)

lemma inside_not_exposed:
  assumes g1: "a * px p1 + b * py p1 < a * px p + b * py p"
    and g2: "a * px p2 + b * py p2 < a * px p + b * py p"
    and gr: "a * px r + b * py r < a * px p + b * py p"
    and d: "dist_line p1 p2 p > 0" and d1: "dist_line p1 r p \<le> 0" and d2: "dist_line r p2 p \<le> 0"
  shows False
proof -
  let ?c = "- (a * px p + b * py p)"
  have z: "a * px p + b * py p + ?c = 0" by simp
  have w1: "dist_line p2 r p \<ge> 0" using d2 dist_rot(1) [of p2 r p] by simp
  have w2: "dist_line r p1 p \<ge> 0" using d1 dist_rot(2) [of r p1 p] by simp
  have t1: "dist_line p2 r p * (a * px p1 + b * py p1 + ?c) \<le> 0"
    using w1 g1 by (intro mult_nonneg_nonpos) simp_all
  have t2: "dist_line r p1 p * (a * px p2 + b * py p2 + ?c) \<le> 0"
    using w2 g2 by (intro mult_nonneg_nonpos) simp_all
  have t3: "dist_line p1 p2 p * (a * px r + b * py r + ?c) < 0"
    using d gr by (intro mult_pos_neg) simp_all
  have "dist_line p1 p2 r * (a * px p + b * py p + ?c) = 0" unfolding z by simp
  then show False using bary [of p1 p2 r a p b ?c] t1 t2 t3 by linarith
qed

lemma hull_edges_complete:
  "hull_edges k pts p1 p2 = Some es \<Longrightarrow> p1 \<in> set pts \<Longrightarrow> p2 \<in> set pts \<Longrightarrow>
     p \<in> set pts \<Longrightarrow> exposed pts p \<Longrightarrow> dist_line p1 p2 p > 0 \<Longrightarrow> p \<in> ep1 ` set es"
proof (induction k arbitrary: p1 p2 es)
  case 0
  then show ?case by simp
next
  case (Suc k)
  let ?r = "fst (find_max pts p1 p2)"
  have pos: "snd (find_max pts p1 p2) \<noteq> 0"
    using find_max_bound [OF Suc.prems(4), of p1 p2] Suc.prems(6) by linarith
  then obtain es1 es2 where e1: "hull_edges k pts p1 ?r = Some es1"
    and e2: "hull_edges k pts ?r p2 = Some es2" and es: "es = es1 @ es2"
    using Suc.prems(1) by (auto split: option.splits)
  from find_max_attained [OF pos] have r: "?r \<in> set pts" by blast
  from hull_edges_chain [OF e2] have hd2: "es2 \<noteq> []" "ep1 (hd es2) = ?r" by simp_all
  show ?case
  proof (cases "p = ?r")
    case True
    have "hd es2 \<in> set es" using hd2(1) es by simp
    then show ?thesis using hd2(2) True by force
  next
    case nr: False
    show ?thesis
    proof (cases "dist_line p1 ?r p > 0")
      case True
      from Suc.IH [OF e1 Suc.prems(2) r Suc.prems(4) Suc.prems(5) True] show ?thesis
        unfolding es by auto
    next
      case l1: False
      show ?thesis
      proof (cases "dist_line ?r p2 p > 0")
        case True
        from Suc.IH [OF e2 r Suc.prems(3) Suc.prems(4) Suc.prems(5) True] show ?thesis
          unfolding es by auto
      next
        case l2: False
        obtain a b where ab: "\<forall>q\<in>set pts. q \<noteq> p \<longrightarrow> a * px q + b * py q < a * px p + b * py p"
          using Suc.prems(5) unfolding exposed_def by blast
        have "p1 \<noteq> p" "p2 \<noteq> p" using Suc.prems(6) by auto
        then have "a * px p1 + b * py p1 < a * px p + b * py p"
          and "a * px p2 + b * py p2 < a * px p + b * py p"
          and "a * px ?r + b * py ?r < a * px p + b * py p"
          using ab Suc.prems(2,3) r nr by auto
        from inside_not_exposed [OF this Suc.prems(6)] l1 l2 show ?thesis by auto
      qed
    qed
  qed
qed

lemma between_not_exposed:
  assumes gm: "a * px m + b * py m < a * px p + b * py p"
    and gM: "a * px M + b * py M < a * px p + b * py p"
    and on: "dist_line m M p = 0" and lo: "px m \<le> px p" and hi: "px p \<le> px M" and ne: "px m < px M"
  shows False
proof -
  let ?g = "\<lambda>q. a * px q + b * py q - (a * px p + b * py p)"
  have id: "(px M - px m) * ?g p - b * dist_line m M p = (px M - px p) * ?g m + (px p - px m) * ?g M"
    by (simp add: dist_line_def algebra_simps)
  have l: "(px M - px m) * ?g p - b * dist_line m M p = 0" using on by simp
  have t1: "(px M - px p) * ?g m \<le> 0" using hi gm by (intro mult_nonneg_nonpos) simp_all
  have t2: "(px p - px m) * ?g M \<le> 0" using lo gM by (intro mult_nonneg_nonpos) simp_all
  have "px M - px p > 0 \<or> px p - px m > 0" using ne by linarith
  then have "(px M - px p) * ?g m < 0 \<or> (px p - px m) * ?g M < 0"
    using gm gM by (auto intro!: mult_pos_neg)
  then show False using id l t1 t2 by linarith
qed


lemma dist_line_swap: "dist_line b a q = - dist_line a b q"
  by (simp add: dist_line_def algebra_simps)

lemma chain_pred:
  "chain es \<Longrightarrow> e \<in> set es \<Longrightarrow> e = hd es \<or> (\<exists>e'\<in>set es. ep2 e' = ep1 e)"
proof (induction es rule: chain.induct)
  case 1
  then show ?case by simp
next
  case (2 f)
  then show ?case by simp
next
  case (3 f g es)
  then show ?case by auto
qed

lemma chain_succ:
  "chain es \<Longrightarrow> e \<in> set es \<Longrightarrow> e = last es \<or> (\<exists>e'\<in>set es. ep1 e' = ep2 e)"
proof (induction es rule: chain.induct)
  case 1
  then show ?case by simp
next
  case (2 f)
  then show ?case by simp
next
  case (3 f g es)
  then show ?case by auto
qed

lemma closed_chain_pred:
  assumes "closed_chain es" and "e \<in> set es"
  shows "\<exists>e'\<in>set es. ep2 e' = ep1 e"
proof -
  have ne: "es \<noteq> []" and ch: "chain es" and cl: "ep2 (last es) = ep1 (hd es)"
    using assms(1) by (simp_all add: closed_chain_def)
  from chain_pred [OF ch assms(2)] show ?thesis
  proof
    assume "e = hd es"
    then have "ep2 (last es) = ep1 e" using cl by simp
    moreover have "last es \<in> set es" using ne by simp
    ultimately show ?thesis by blast
  qed
qed

lemma closed_chain_succ:
  assumes "closed_chain es" and "e \<in> set es"
  shows "\<exists>e'\<in>set es. ep1 e' = ep2 e"
proof -
  have ne: "es \<noteq> []" and ch: "chain es" and cl: "ep2 (last es) = ep1 (hd es)"
    using assms(1) by (simp_all add: closed_chain_def)
  from chain_succ [OF ch assms(2)] show ?thesis
  proof
    assume "e = last es"
    then have "ep1 (hd es) = ep2 e" using cl by simp
    moreover have "hd es \<in> set es" using ne by simp
    ultimately show ?thesis by blast
  qed
qed

lemma closed_chain_vertices: "closed_chain es \<Longrightarrow> vertices es = ep1 ` set es"
proof -
  assume c: "closed_chain es"
  have "ep2 ` set es \<subseteq> ep1 ` set es"
  proof
    fix v assume "v \<in> ep2 ` set es"
    then obtain e where "e \<in> set es" "v = ep2 e" by blast
    with closed_chain_succ [OF c] show "v \<in> ep1 ` set es" by force
  qed
  then show ?thesis unfolding vertices_def by blast
qed

lemma two_edges_functional:
  "dist_line p0 v q + dist_line v p2 q =
     (py p0 - py p2) * px q + (px p2 - px p0) * py q -
     ((py p0 - py p2) * px v + (px p2 - px p0) * py v)"
  by (simp add: dist_line_def algebra_simps)

lemma corner_exposed:
  assumes nfb: "no_flat_boundary pts"
    and three: "\<exists>x\<in>set pts. \<exists>y\<in>set pts. \<exists>z\<in>set pts. x \<noteq> y \<and> x \<noteq> z \<and> y \<noteq> z"
    and p0: "p0 \<in> set pts" and v: "v \<in> set pts" and p2: "p2 \<in> set pts"
    and n0: "p0 \<noteq> v" and n2: "v \<noteq> p2"
    and s0: "\<forall>q\<in>set pts. dist_line p0 v q \<le> 0" and s2: "\<forall>q\<in>set pts. dist_line v p2 q \<le> 0"
  shows "exposed pts v"
proof -
  have strict: "dist_line p0 v q + dist_line v p2 q < 0" if q: "q \<in> set pts" and nq: "q \<noteq> v" for q
  proof (rule ccontr)
    assume "\<not> dist_line p0 v q + dist_line v p2 q < 0"
    then have z0: "dist_line p0 v q = 0" and z2: "dist_line v p2 q = 0"
      using s0 s2 q by (force, force)
    have "q = p0 \<or> q = v" using nfb p0 v n0 s0 q z0 unfolding no_flat_boundary_def by blast
    then have q0: "q = p0" using nq by simp
    have "q = v \<or> q = p2" using nfb v p2 n2 s2 q z2 unfolding no_flat_boundary_def by blast
    then have q2: "q = p2" using nq by simp
    have flat: "\<forall>x\<in>set pts. dist_line p0 v x = 0"
    proof
      fix x assume x: "x \<in> set pts"
      have "dist_line v p0 x \<le> 0" using s2 x q0 q2 by simp
      then have "dist_line p0 v x \<ge> 0" using dist_line_swap [of v p0 x] by simp
      then show "dist_line p0 v x = 0" using s0 x by force
    qed
    have "\<forall>x\<in>set pts. x = p0 \<or> x = v"
      using nfb p0 v n0 s0 flat unfolding no_flat_boundary_def by blast
    then show False using three by metis
  qed
  show ?thesis unfolding exposed_def
  proof (intro exI ballI impI)
    fix q assume q: "q \<in> set pts" and nq: "q \<noteq> v"
    from strict [OF q nq] two_edges_functional [of p0 v q p2]
    show "(py p0 - py p2) * px q + (px p2 - px p0) * py q <
          (py p0 - py p2) * px v + (px p2 - px p0) * py v" by linarith
  qed
qed

lemma three_distinct:
  "3 \<le> length pts \<Longrightarrow> distinct pts \<Longrightarrow>
     \<exists>x\<in>set pts. \<exists>y\<in>set pts. \<exists>z\<in>set pts. x \<noteq> y \<and> x \<noteq> z \<and> y \<noteq> z"
proof -
  assume l: "3 \<le> length pts" and d: "distinct pts"
  then obtain a b c rest where "pts = a # b # c # rest"
    by (cases pts; cases "tl pts"; cases "tl (tl pts)") auto
  then show ?thesis using d by auto
qed

lemma vertical_flat:
  assumes nfb: "no_flat_boundary pts"
    and three: "\<exists>x\<in>set pts. \<exists>y\<in>set pts. \<exists>z\<in>set pts. x \<noteq> y \<and> x \<noteq> z \<and> y \<noteq> z"
    and same: "\<forall>q\<in>set pts. px q = c"
  shows False
proof -
  obtain a b z where abz: "a \<in> set pts" "b \<in> set pts" "z \<in> set pts" "a \<noteq> b" "a \<noteq> z" "b \<noteq> z"
    using three by blast
  have flat: "\<forall>q\<in>set pts. dist_line a b q = 0"
    using same abz(1,2) by (simp add: dist_line_def algebra_simps)
  then have "\<forall>q\<in>set pts. dist_line a b q \<le> 0" by simp
  then have "z = a \<or> z = b" using nfb abz flat unfolding no_flat_boundary_def by blast
  then show False using abz by simp
qed

lemma hull_of_correct:
  assumes len: "3 \<le> length pts" and dis: "distinct pts" and nfb: "no_flat_boundary pts"
    and wmin: "\<exists>p\<in>set pts. px p < w" and wmax: "\<exists>p\<in>set pts. - 1 < px p"
    and fuel: "length pts < fuel"
  shows "\<exists>es. hull_of fuel w pts = Inr es \<and> closed_chain es \<and>
           (\<forall>e\<in>set es. ep1 e \<in> set pts \<and> ep2 e \<in> set pts \<and> ep1 e \<noteq> ep2 e \<and>
                       (\<forall>q\<in>set pts. dist_line (ep1 e) (ep2 e) q \<le> 0)) \<and>
           vertices es = {p \<in> set pts. exposed pts p} \<and>
           (\<forall>q\<in>set pts. q \<notin> vertices es \<longrightarrow> (\<forall>e\<in>set es. dist_line (ep1 e) (ep2 e) q < 0))"
proof -
  let ?m = "find_min_point w pts" and ?M = "find_max_point pts"
  note three = three_distinct [OF len dis]
  have mw: "px ?m \<noteq> w" using wmin find_min_point_le [of _ pts w] by force
  have Mw: "px ?M \<noteq> - 1" using wmax find_max_point_ge [of _ pts] by force
  have m: "?m \<in> set pts" using mw by (rule find_min_point_mem)
  have M: "?M \<in> set pts" using Mw by (rule find_max_point_mem)
  have lt: "px ?m < px ?M"
  proof (rule ccontr)
    assume "\<not> px ?m < px ?M"
    then have "\<forall>q\<in>set pts. px q = px ?m"
      using find_min_point_le [of _ pts w] find_max_point_ge [of _ pts] by force
    from vertical_flat [OF nfb three this] show False .
  qed
  then have ne: "?m \<noteq> ?M" by auto
  obtain es1 where e1: "hull_edges fuel pts ?m ?M = Some es1"
    using hull_edges_upper [OF scans_bound fuel] by blast
  obtain es2 where e2: "hull_edges fuel pts ?M ?m = Some es2"
    using hull_edges_lower [OF scans_bound fuel] by blast
  let ?es = "es1 @ es2"
  have h: "hull_of fuel w pts = Inr ?es"
    using len mw Mw e1 e2 by (simp add: hull_of_def)
  note c1 = hull_edges_chain [OF e1] and c2 = hull_edges_chain [OF e2]
  have cc: "closed_chain ?es"
    using c1 c2 by (simp add: closed_chain_def chain_append)
  have sound: "\<forall>e\<in>set ?es. ep1 e \<in> set pts \<and> ep2 e \<in> set pts \<and> ep1 e \<noteq> ep2 e \<and>
                       (\<forall>q\<in>set pts. dist_line (ep1 e) (ep2 e) q \<le> 0)"
    using hull_edges_sound [OF e1 m M ne] hull_edges_sound [OF e2 M m ne [symmetric]] by auto
  have sub: "v \<in> set pts \<and> exposed pts v" if "v \<in> vertices ?es" for v
  proof -
    from that obtain e where e: "e \<in> set ?es" "v = ep1 e"
      unfolding closed_chain_vertices [OF cc] by blast
    from closed_chain_pred [OF cc e(1)] obtain e' where e': "e' \<in> set ?es" "ep2 e' = ep1 e"
      by blast
    have a: "ep1 e' \<in> set pts" "ep1 e' \<noteq> v" "\<forall>q\<in>set pts. dist_line (ep1 e') v q \<le> 0"
      using sound e' e(2) by force+
    have b: "v \<in> set pts" "ep2 e \<in> set pts" "v \<noteq> ep2 e" "\<forall>q\<in>set pts. dist_line v (ep2 e) q \<le> 0"
      using sound e by force+
    from corner_exposed [OF nfb three a(1) b(1) b(2) a(2) b(3) a(3) b(4)] b(1)
    show ?thesis by simp
  qed
  have sup: "p \<in> vertices ?es" if p: "p \<in> set pts" and ex: "exposed pts p" for p
  proof -
    have v: "vertices ?es = ep1 ` set ?es" by (rule closed_chain_vertices [OF cc])
    have hm: "?m \<in> ep1 ` set ?es" using c1 by (metis hd_in_set image_eqI set_append UnI1)
    have hM: "?M \<in> ep1 ` set ?es" using c2 by (metis hd_in_set image_eqI set_append UnI2)
    consider (a) "p = ?m" | (b) "p = ?M" | (c) "dist_line ?m ?M p > 0" | (d) "dist_line ?M ?m p > 0"
      | (e) "p \<noteq> ?m" "p \<noteq> ?M" "dist_line ?m ?M p = 0"
      using dist_line_swap [of ?M ?m p] by linarith
    then show ?thesis
    proof cases
      case a then show ?thesis using hm v by simp
    next
      case b then show ?thesis using hM v by simp
    next
      case c
      from hull_edges_complete [OF e1 m M p ex c] show ?thesis unfolding v by auto
    next
      case d
      from hull_edges_complete [OF e2 M m p ex d] show ?thesis unfolding v by auto
    next
      case e
      obtain a b where ab: "\<forall>q\<in>set pts. q \<noteq> p \<longrightarrow> a * px q + b * py q < a * px p + b * py p"
        using ex unfolding exposed_def by blast
      have "a * px ?m + b * py ?m < a * px p + b * py p"
        and "a * px ?M + b * py ?M < a * px p + b * py p"
        using ab m M e(1,2) by auto
      from between_not_exposed [OF this e(3) find_min_point_le [OF p] find_max_point_ge [OF p] lt]
      show ?thesis by simp
    qed
  qed
  have eq: "vertices ?es = {p \<in> set pts. exposed pts p}" using sub sup by blast
  have inside: "\<forall>q\<in>set pts. q \<notin> vertices ?es \<longrightarrow> (\<forall>e\<in>set ?es. dist_line (ep1 e) (ep2 e) q < 0)"
  proof (intro ballI impI)
    fix q e assume q: "q \<in> set pts" and nv: "q \<notin> vertices ?es" and e: "e \<in> set ?es"
    have le: "dist_line (ep1 e) (ep2 e) q \<le> 0" using sound e q by blast
    have "dist_line (ep1 e) (ep2 e) q \<noteq> 0"
    proof
      assume z: "dist_line (ep1 e) (ep2 e) q = 0"
      have "ep1 e \<in> set pts" "ep2 e \<in> set pts" "ep1 e \<noteq> ep2 e"
        "\<forall>x\<in>set pts. dist_line (ep1 e) (ep2 e) x \<le> 0" using sound e by blast+
      then have "q = ep1 e \<or> q = ep2 e" using nfb q z unfolding no_flat_boundary_def by blast
      then show False using nv e unfolding vertices_def by blast
    qed
    then show "dist_line (ep1 e) (ep2 e) q < 0" using le by linarith
  qed
  show ?thesis using h cc sound eq inside by blast
qed


text \<open>
  C1, as the code has it.  For at least three distinct points, of which one has
  \<open>x\<close> below \<^verbatim>\<open>global.w\<close> and one has \<open>x\<close> above \<open>-1\<close> (every window point has both), and
  none of which lies on a line through two others that has all points on one side,
  \<^verbatim>\<open>convex_hull\<close> appends a closed chain of edges; the points the chain touches are
  exactly the hull vertices of the input; and every other input point is strictly to
  the right of every edge, that is strictly inside the polygon.
\<close>

theorem build_hull_correct:
  assumes "3 \<le> length points" and "distinct points" and "no_flat_boundary points"
    and "\<exists>p\<in>set points. px p < g_w s" and "\<exists>p\<in>set points. - 1 < px p"
    and "length points < fuel"
  shows "\<exists>es. convex_hull fuel points s = Inr (s\<lparr>g_edges := g_edges s @ es\<rparr>) \<and>
           closed_chain es \<and>
           vertices es = {p \<in> set points. exposed points p} \<and>
           (\<forall>q\<in>set points. q \<notin> vertices es \<longrightarrow>
              (\<forall>e\<in>set es. dist_line (ep1 e) (ep2 e) q < 0))"
proof -
  from hull_of_correct [OF assms] obtain es where
    h: "hull_of fuel (g_w s) points = Inr es" and c: "closed_chain es"
    and v: "vertices es = {p \<in> set points. exposed points p}"
    and i: "\<forall>q\<in>set points. q \<notin> vertices es \<longrightarrow> (\<forall>e\<in>set es. dist_line (ep1 e) (ep2 e) q < 0)"
    by blast
  have "convex_hull fuel points s = Inr (s\<lparr>g_edges := g_edges s @ es\<rparr>)"
    using h by (simp add: convex_hull_of)
  then show ?thesis using c v i by blast
qed

theorem build_hull_correct_witness:
  "3 \<le> length square5 \<and> distinct square5 \<and> length square5 < 6 \<and>
   (\<exists>es. convex_hull 6 square5 (start_glob square5) =
            Inr ((start_glob square5)\<lparr>g_edges := g_edges (start_glob square5) @ es\<rparr>) \<and>
         closed_chain es \<and> pt 0 0 \<in> vertices es \<and> pt 2 2 \<notin> vertices es)"
proof -
  have a: "3 \<le> length square5" by (simp add: square5_def)
  have b: "distinct square5" by (simp add: square5_def pt_def)
  have c: "no_flat_boundary square5"
    unfolding no_flat_boundary_def square5_def pt_def dist_line_def by simp
  have d: "\<exists>p\<in>set square5. px p < g_w (start_glob square5)"
    by (simp add: square5_def pt_def start_glob_def)
  have e: "\<exists>p\<in>set square5. - 1 < px p" by (simp add: square5_def pt_def)
  have f: "length square5 < 6" by (simp add: square5_def)
  have x: "exposed square5 (pt 0 0)"
    unfolding exposed_def
    by (rule exI [of _ "- 1"], rule exI [of _ "- 1"]) (simp add: square5_def pt_def)
  have y: "\<not> exposed square5 (pt 2 2)"
  proof
    assume "exposed square5 (pt 2 2)"
    then obtain a b where "\<forall>q\<in>set square5. q \<noteq> pt 2 2 \<longrightarrow> a * px q + b * py q < a * px (pt 2 2) + b * py (pt 2 2)"
      unfolding exposed_def by blast
    then have "a * 0 + b * 0 < a * 2 + b * 2" and "a * 4 + b * 4 < a * 2 + b * 2"
      by (simp_all add: square5_def pt_def)
    then show False by linarith
  qed
  from build_hull_correct [OF a b c d e f] obtain es where
    r: "convex_hull 6 square5 (start_glob square5) =
            Inr ((start_glob square5)\<lparr>g_edges := g_edges (start_glob square5) @ es\<rparr>)"
    and cc: "closed_chain es" and v: "vertices es = {p \<in> set square5. exposed square5 p}"
    by blast
  have "pt 0 0 \<in> vertices es" unfolding v using x by (simp add: square5_def)
  moreover have "pt 2 2 \<notin> vertices es" unfolding v using y by simp
  ultimately show ?thesis using a b f r cc by blast
qed

text \<open>
  C1, as the claim has it, fails in two ways on five points that are distinct and
  not all on a line.  The square with the middle \<open>(2,0)\<close> of its lower side: the hull
  is the four sides, the point \<open>(2,0)\<close> is on no edge as an end, and it lies on the
  side from \<open>(4,0)\<close> to \<open>(0,0)\<close>, not strictly inside.  The square with the middle
  \<open>(2,4)\<close> of its upper side, scanned before the corners: \<open>(2,4)\<close> is the first point
  at the greatest distance from the lower side, so it becomes an end of two edges,
  and it is not a vertex of the convex hull.
\<close>

theorem build_hull_general_position_counterexample:
  "3 \<le> length flat5 \<and> distinct flat5 \<and>
   map_sum id g_edges (convex_hull 6 flat5 (start_glob flat5)) =
     Inr [\<lparr>ep1 = pt 0 0, ep2 = pt 0 4\<rparr>, \<lparr>ep1 = pt 0 4, ep2 = pt 4 4\<rparr>,
          \<lparr>ep1 = pt 4 4, ep2 = pt 4 0\<rparr>, \<lparr>ep1 = pt 4 0, ep2 = pt 0 0\<rparr>] \<and>
   dist_line (pt 4 0) (pt 0 0) (pt 2 0) = 0 \<and>
   dist_line (pt 0 0) (pt 4 0) (pt 4 4) \<noteq> 0 \<and>
   3 \<le> length tie5 \<and> distinct tie5 \<and>
   map_sum id g_edges (convex_hull 6 tie5 (start_glob tie5)) =
     Inr [\<lparr>ep1 = pt 0 0, ep2 = pt 0 4\<rparr>, \<lparr>ep1 = pt 0 4, ep2 = pt 2 4\<rparr>,
          \<lparr>ep1 = pt 2 4, ep2 = pt 4 4\<rparr>, \<lparr>ep1 = pt 4 4, ep2 = pt 4 0\<rparr>,
          \<lparr>ep1 = pt 4 0, ep2 = pt 0 0\<rparr>] \<and>
   \<not> exposed tie5 (pt 2 4)"
proof -
  have a: "3 \<le> length flat5 \<and> distinct flat5 \<and>
   map_sum id g_edges (convex_hull 6 flat5 (start_glob flat5)) =
     Inr [\<lparr>ep1 = pt 0 0, ep2 = pt 0 4\<rparr>, \<lparr>ep1 = pt 0 4, ep2 = pt 4 4\<rparr>,
          \<lparr>ep1 = pt 4 4, ep2 = pt 4 0\<rparr>, \<lparr>ep1 = pt 4 0, ep2 = pt 0 0\<rparr>] \<and>
   dist_line (pt 4 0) (pt 0 0) (pt 2 0) = 0 \<and>
   dist_line (pt 0 0) (pt 4 0) (pt 4 4) \<noteq> 0 \<and>
   3 \<le> length tie5 \<and> distinct tie5 \<and>
   map_sum id g_edges (convex_hull 6 tie5 (start_glob tie5)) =
     Inr [\<lparr>ep1 = pt 0 0, ep2 = pt 0 4\<rparr>, \<lparr>ep1 = pt 0 4, ep2 = pt 2 4\<rparr>,
          \<lparr>ep1 = pt 2 4, ep2 = pt 4 4\<rparr>, \<lparr>ep1 = pt 4 4, ep2 = pt 4 0\<rparr>,
          \<lparr>ep1 = pt 4 0, ep2 = pt 0 0\<rparr>]"
    by code_simp
  have b: "\<not> exposed tie5 (pt 2 4)"
  proof
    assume "exposed tie5 (pt 2 4)"
    then obtain a b where
      h: "\<forall>q\<in>set tie5. q \<noteq> pt 2 4 \<longrightarrow>
                a * px q + b * py q < a * px (pt 2 4) + b * py (pt 2 4)"
      unfolding exposed_def by blast
    have "pt 0 4 \<in> set tie5" "pt 0 4 \<noteq> pt 2 4" "pt 4 4 \<in> set tie5" "pt 4 4 \<noteq> pt 2 4"
      by (simp_all add: tie5_def pt_def)
    then have "a * px (pt 0 4) + b * py (pt 0 4) < a * px (pt 2 4) + b * py (pt 2 4)"
      and "a * px (pt 4 4) + b * py (pt 4 4) < a * px (pt 2 4) + b * py (pt 2 4)"
      using h by blast+
    then show False by (simp add: pt_def)
  qed
  show ?thesis using a b by blast
qed


section \<open>The fan of triangles around an inner point\<close>

lemma left_first:
  assumes s1: "supports pts p1 s1" and t1: "turn s1 (vec p1 p2)"
    and r: "r \<in> set pts" and d: "dist_line p1 p2 r > 0"
    and q: "q \<in> set pts" and l: "0 < dist_line p1 r q"
  shows "0 < dist_line p1 p2 q"
  unfolding dist_cross
proof (rule wedge_left [of s1 _ "vec p1 r"])
  show "cross s1 (vec p1 q) \<le> 0" using s1 q by (simp add: supports_def)
  show "cross s1 (vec p1 r) \<le> 0" using s1 r by (simp add: supports_def)
  show "turn s1 (vec p1 p2)" by (rule t1)
  show "0 < cross (vec p1 p2) (vec p1 r)" using d by (simp add: dist_cross)
  show "0 < cross (vec p1 r) (vec p1 q)" using l by (simp add: dist_cross)
qed

lemma left_second:
  assumes s2: "supports pts p2 s2" and t2: "turn (vec p1 p2) s2"
    and r: "r \<in> set pts" and d: "dist_line p1 p2 r > 0"
    and q: "q \<in> set pts" and l: "0 < dist_line r p2 q"
  shows "0 < dist_line p1 p2 q"
  unfolding dist_from_p2 [of p1 p2 q]
proof (rule wedge_right [of s2 _ "vec p2 r"])
  show "cross s2 (vec p2 q) \<le> 0" using s2 q by (simp add: supports_def)
  show "cross s2 (vec p2 r) \<le> 0" using s2 r by (simp add: supports_def)
  show "0 < cross (vec p2 p1) s2 \<or> cross (vec p2 p1) s2 = 0 \<and> dot (vec p2 p1) s2 < 0"
    using t2 vec_flip(2) [of p2 p1 s2] vec_flip(3) [of p2 p1 s2] by (auto simp: turn_def)
  show "0 < cross (vec p2 r) (vec p2 p1)" using d by (simp add: dist_from_p2)
  show "0 < cross (vec p2 q) (vec p2 r)" using l by (simp add: dist_from_p2)
qed

lemma split_sum: "dist_line p1 r q + dist_line r p2 q = dist_line p1 p2 q - dist_line p1 p2 r"
  by (simp add: dist_line_def algebra_simps)

lemma dist_line_cycle: "dist_line r p2 p1 = - dist_line p1 p2 r"
  by (simp add: dist_line_def algebra_simps)

lemma hull_edges_simple:
  assumes "supports pts p1 s1" and "supports pts p2 s2"
    and "turn s1 (vec p1 p2)" and "turn (vec p1 p2) s2"
    and "hull_edges k pts p1 p2 = Some es"
  shows "\<exists>ins. map ep1 es = p1 # ins \<and> distinct (p1 # ins) \<and>
           (\<forall>v\<in>set ins. v \<in> set pts \<and> dist_line p1 p2 v > 0)"
  using assms
proof (induction k arbitrary: p1 p2 s1 s2 es)
  case 0
  then show ?case by simp
next
  case (Suc k)
  let ?r = "fst (find_max pts p1 p2)"
  let ?u = "vec p1 p2"
  show ?case
  proof (cases "snd (find_max pts p1 p2) = 0")
    case True
    then have "es = [\<lparr>ep1 = p1, ep2 = p2\<rparr>]" using Suc.prems(5) by simp
    then show ?thesis by simp
  next
    case False
    then have r: "?r \<in> set pts" and dr: "dist_line p1 p2 ?r = snd (find_max pts p1 p2)"
      using find_max_attained by blast+
    have d: "dist_line p1 p2 ?r > 0" using False dr find_max_nonneg [of pts p1 p2] by linarith
    have sr: "supports pts ?r ?u"
      unfolding supports_def dist_shift using find_max_bound [of _ pts p1 p2] dr by auto
    have t1: "turn s1 (vec p1 ?r)"
    proof (rule turn_keep_left [OF _ Suc.prems(3)])
      show "cross s1 (vec p1 ?r) \<le> 0" using Suc.prems(1) r by (simp add: supports_def)
      show "0 < cross ?u (vec p1 ?r)" using d by (simp add: dist_cross)
    qed
    have t2: "turn (vec p1 ?r) ?u"
      using d cross_anti [of "vec p1 ?r" ?u] by (simp add: turn_def dist_cross)
    have t3: "turn ?u (vec ?r p2)"
      using d by (simp add: turn_def dist_shift)
    have t4: "turn (vec ?r p2) s2"
    proof (rule turn_keep_right [OF _ Suc.prems(4)])
      have "cross s2 (vec p2 ?r) \<le> 0" using Suc.prems(2) r by (simp add: supports_def)
      then show "cross (vec ?r p2) s2 \<le> 0"
        using vec_flip(1) [of s2 p2 ?r] cross_anti [of s2 "vec ?r p2"] by simp
      show "cross ?u (vec ?r p2) < 0" using d by (simp add: dist_shift)
    qed
    obtain es1 es2 where e1: "hull_edges k pts p1 ?r = Some es1"
      and e2: "hull_edges k pts ?r p2 = Some es2" and es: "es = es1 @ es2"
      using Suc.prems(5) False by (auto split: option.splits)
    from Suc.IH [OF Suc.prems(1) sr t1 t2 e1] obtain in1 where
      i1c: "map ep1 es1 = p1 # in1 \<and> distinct (p1 # in1) \<and>
        (\<forall>v\<in>set in1. v \<in> set pts \<and> dist_line p1 ?r v > 0)" ..
    note i1 = conjunct1 [OF i1c] conjunct1 [OF conjunct2 [OF i1c]] conjunct2 [OF conjunct2 [OF i1c]]
    from Suc.IH [OF sr Suc.prems(2) t3 t4 e2] obtain in2 where
      i2c: "map ep1 es2 = ?r # in2 \<and> distinct (?r # in2) \<and>
        (\<forall>v\<in>set in2. v \<in> set pts \<and> dist_line ?r p2 v > 0)" ..
    note i2 = conjunct1 [OF i2c] conjunct1 [OF conjunct2 [OF i2c]] conjunct2 [OF conjunct2 [OF i2c]]
    let ?ins = "in1 @ ?r # in2"
    have m: "map ep1 es = p1 # ?ins" using es i1(1) i2(1) by simp
    have left: "\<forall>v\<in>set ?ins. v \<in> set pts \<and> dist_line p1 p2 v > 0"
    proof
      fix v assume "v \<in> set ?ins"
      then consider "v \<in> set in1" | "v = ?r" | "v \<in> set in2" by auto
      then show "v \<in> set pts \<and> dist_line p1 p2 v > 0"
      proof cases
        case 1
        then have "v \<in> set pts" "dist_line p1 ?r v > 0" using i1(3) by blast+
        then show ?thesis using left_first [OF Suc.prems(1) Suc.prems(3) r d] by blast
      next
        case 2
        then show ?thesis using r d by simp
      next
        case 3
        then have "v \<in> set pts" "dist_line ?r p2 v > 0" using i2(3) by blast+
        then show ?thesis using left_second [OF Suc.prems(2) Suc.prems(4) r d] by blast
      qed
    qed
    have a: "p1 \<noteq> ?r" using d by auto
    have b: "p1 \<notin> set in2"
    proof
      assume "p1 \<in> set in2"
      then have "dist_line ?r p2 p1 > 0" using i2(3) by blast
      then show False using dist_line_cycle [of ?r p2 p1] d by linarith
    qed
    have c: "?r \<notin> set in1"
    proof
      assume "?r \<in> set in1"
      then have "dist_line p1 ?r ?r > 0" using i1(3) by blast
      then show False by simp
    qed
    have e: "set in1 \<inter> set in2 = {}"
    proof (rule ccontr)
      assume "set in1 \<inter> set in2 \<noteq> {}"
      then obtain v where v: "v \<in> set in1" "v \<in> set in2" by blast
      then have "dist_line p1 ?r v > 0" "dist_line ?r p2 v > 0" "v \<in> set pts"
        using i1(3) i2(3) by blast+
      then have "dist_line p1 p2 v > dist_line p1 p2 ?r" using split_sum [of p1 ?r v p2] by linarith
      then show False using find_max_bound [of v pts p1 p2] \<open>v \<in> set pts\<close> dr by linarith
    qed
    have dd: "distinct (p1 # ?ins)" using i1(2) i2(2) a b c e by auto
    show ?thesis
      by (rule exI [of _ ?ins]) (intro conjI m dd left)
  qed
qed

lemma hull_of_simple:
  assumes len: "3 \<le> length pts" and dis: "distinct pts" and nfb: "no_flat_boundary pts"
    and h: "hull_of fuel w pts = Inr es"
  shows "distinct (map ep1 es)"
proof -
  let ?m = "find_min_point w pts" and ?M = "find_max_point pts"
  note three = three_distinct [OF len dis]
  have lt: "px ?m < px ?M"
  proof (rule ccontr)
    assume "\<not> px ?m < px ?M"
    then have "\<forall>q\<in>set pts. px q = px ?m"
      using find_min_point_le [of _ pts w] find_max_point_ge [of _ pts] by force
    from vertical_flat [OF nfb three this] show False .
  qed
  obtain es1 es2 where e1: "hull_edges fuel pts ?m ?M = Some es1"
    and e2: "hull_edges fuel pts ?M ?m = Some es2" and es: "es = es1 @ es2"
    using h len by (auto simp: hull_of_def split: if_splits option.splits)
  have b: "\<forall>q\<in>set pts. px ?m \<le> px q \<and> px q \<le> px ?M" by (rule scans_bound)
  have sm: "supports pts ?m (0, 1)" using b by (simp add: supports_def cross_def vec_def)
  have sM: "supports pts ?M (0, - 1)" using b by (simp add: supports_def cross_def vec_def)
  have "turn (0, 1) (vec ?m ?M)" "turn (vec ?m ?M) (0, - 1)"
    using lt by (simp_all add: turn_def cross_def vec_def)
  from hull_edges_simple [OF sm sM this e1] obtain in1 where
      i1c: "map ep1 es1 = ?m # in1 \<and> distinct (?m # in1) \<and>
        (\<forall>v\<in>set in1. v \<in> set pts \<and> dist_line ?m ?M v > 0)" ..
    note i1 = conjunct1 [OF i1c] conjunct1 [OF conjunct2 [OF i1c]] conjunct2 [OF conjunct2 [OF i1c]]
  have "turn (0, - 1) (vec ?M ?m)" "turn (vec ?M ?m) (0, 1)"
    using lt by (simp_all add: turn_def cross_def vec_def)
  from hull_edges_simple [OF sM sm this e2] obtain in2 where
      i2c: "map ep1 es2 = ?M # in2 \<and> distinct (?M # in2) \<and>
        (\<forall>v\<in>set in2. v \<in> set pts \<and> dist_line ?M ?m v > 0)" ..
    note i2 = conjunct1 [OF i2c] conjunct1 [OF conjunct2 [OF i2c]] conjunct2 [OF conjunct2 [OF i2c]]
  have a: "?m \<noteq> ?M" using lt by auto
  have c1: "?m \<notin> set in2" using i2(3) by force
  have c2: "?M \<notin> set in1" using i1(3) by force
  have c3: "set in1 \<inter> set in2 = {}"
  proof (rule ccontr)
    assume "set in1 \<inter> set in2 \<noteq> {}"
    then obtain v where "v \<in> set in1" "v \<in> set in2" by blast
    then have "dist_line ?m ?M v > 0" "dist_line ?M ?m v > 0" using i1(3) i2(3) by blast+
    then show False using dist_line_swap [of ?M ?m v] by linarith
  qed
  have "map ep1 es = (?m # in1) @ (?M # in2)" using es i1(1) i2(1) by simp
  then show ?thesis using i1(2) i2(2) a c1 c2 c3 by auto
qed

lemma on_edge_vertices: "on_edge s p \<longleftrightarrow> p \<in> vertices (t_edges s)"
  by (auto simp: on_edge_def vertices_def list_ex_iff same_point_eq)

lemma fold_mid_step:
  assumes others: "\<forall>p\<in>set ps. p \<noteq> seed \<longrightarrow> on_edge s p" and free: "\<not> on_edge s seed"
    and d: "d = pythagorean seed \<lparr>px = t_w s sdiv 2, py = t_h s sdiv 2\<rparr>" and lt: "d < INT_MAX"
    and acc: "acc = (None, INT_MAX) \<or> acc = (Some seed, d)"
  shows "fold (mid_step s) ps acc = (if seed \<in> set ps then (Some seed, d) else acc)"
  using others acc
proof (induction ps arbitrary: acc)
  case Nil
  then show ?case by simp
next
  case (Cons p ps)
  show ?case
  proof (cases "p = seed")
    case True
    have "mid_step s p acc = (Some seed, d)"
      using True free d lt Cons.prems(2) by (auto simp: mid_step_def Let_def)
    moreover have "fold (mid_step s) ps (Some seed, d) = (Some seed, d)"
      using Cons.IH [of "(Some seed, d)"] Cons.prems(1) by simp
    ultimately show ?thesis using True by simp
  next
    case False
    then have "on_edge s p" using Cons.prems(1) by simp
    then have "mid_step s p acc = acc" by (simp add: mid_step_def)
    then show ?thesis using Cons.IH [of acc] Cons.prems False by auto
  qed
qed

lemma in_triangle_not_exposed:
  assumes g1: "a * px p1 + b * py p1 < a * px q + b * py q"
    and g2: "a * px p2 + b * py p2 < a * px q + b * py q"
    and gr: "a * px r + b * py r < a * px q + b * py q"
    and d1: "dist_line p1 p2 q < 0" and d2: "dist_line p2 r q \<le> 0" and d3: "dist_line r p1 q \<le> 0"
  shows False
proof -
  let ?c = "- (a * px q + b * py q)"
  have z: "a * px q + b * py q + ?c = 0" by simp
  have t1: "dist_line p2 r q * (a * px p1 + b * py p1 + ?c) \<ge> 0"
    using d2 g1 by (intro mult_nonpos_nonpos) simp_all
  have t2: "dist_line r p1 q * (a * px p2 + b * py p2 + ?c) \<ge> 0"
    using d3 g2 by (intro mult_nonpos_nonpos) simp_all
  have t3: "dist_line p1 p2 q * (a * px r + b * py r + ?c) > 0"
    using d1 gr by (intro mult_neg_neg) simp_all
  have "dist_line p1 p2 r * (a * px q + b * py q + ?c) = 0" unfolding z by simp
  then show False using bary [of p1 p2 r a q b ?c] t1 t2 t3 by linarith
qed

lemma fan_is_leaf:
  assumes nfb: "no_flat_boundary pts"
    and ex: "\<forall>p\<in>set pts. p \<noteq> seed \<longrightarrow> exposed pts p"
    and seed: "seed \<in> set pts"
    and e: "ep1 e \<in> set pts" "ep2 e \<in> set pts" "ep1 e \<noteq> ep2 e"
      "\<forall>q\<in>set pts. dist_line (ep1 e) (ep2 e) q \<le> 0"
    and q: "q \<in> set pts"
  shows "\<not> subdivides s (fan seed e) q"
proof
  assume sub: "subdivides s (fan seed e) q"
  then have nv: "q \<noteq> ep1 e" "q \<noteq> ep2 e" "q \<noteq> seed"
    by (auto simp: subdivides_def is_vertex_def fan_def same_point_eq)
  have pit: "point_in_triangle q (fan seed e)" using sub by (simp add: subdivides_def)
  have "dist_line (ep1 e) (ep2 e) q \<noteq> 0"
    using nfb e q nv unfolding no_flat_boundary_def by blast
  then have d1: "dist_line (ep1 e) (ep2 e) q < 0" using e(4) q by force
  have d2: "dist_line (ep2 e) seed q \<le> 0" and d3: "dist_line seed (ep1 e) q \<le> 0"
    using pit d1 by (auto simp: point_in_triangle_def fan_def Let_def split: if_splits)
  obtain a b where ab: "\<forall>x\<in>set pts. x \<noteq> q \<longrightarrow> a * px x + b * py x < a * px q + b * py q"
    using ex q nv(3) unfolding exposed_def by blast
  have "a * px (ep1 e) + b * py (ep1 e) < a * px q + b * py q"
    and "a * px (ep2 e) + b * py (ep2 e) < a * px q + b * py q"
    and "a * px seed + b * py seed < a * px q + b * py q"
    using ab e(1,2) seed nv by auto
  from in_triangle_not_exposed [OF this d1 d2 d3] show False .
qed

lemma trisect_all_fans:
  assumes leaf: "\<forall>e\<in>set es. filter (subdivides s (fan seed e)) (t_points s) = []"
  shows "trisect_all (Suc k) seed es s = Inr (s\<lparr>t_tris := t_tris s @ map (fan seed) es\<rparr>)"
  using leaf
proof (induction es arbitrary: s)
  case Nil
  then show ?case by simp
next
  case (Cons e es)
  let ?s1 = "s\<lparr>t_tris := t_tris s @ [fan seed e]\<rparr>"
  have one: "trisect (Suc k) (fan seed e) s = Inr ?s1"
    using Cons.prems by (simp add: trisect_Suc del: trisect.simps)
  have f: "frame s ?s1" by (rule frame_push)
  have "\<forall>e\<in>set es. filter (subdivides ?s1 (fan seed e)) (t_points ?s1) = []"
    using Cons.prems frame_subdivides [OF f] by simp
  from Cons.IH [OF this] have "trisect_all (Suc k) seed es ?s1 =
      Inr (s\<lparr>t_tris := t_tris s @ fan seed e # map (fan seed) es\<rparr>)" by simp
  then show ?case using one by (simp add: fan_def del: trisect.simps)
qed

lemma chain_telescope:
  fixes f :: "point \<Rightarrow> int"
  shows "chain es \<Longrightarrow> es \<noteq> [] \<Longrightarrow>
     (\<Sum>e\<leftarrow>es. f (ep1 e) - f (ep2 e)) = f (ep1 (hd es)) - f (ep2 (last es))"
proof (induction es rule: chain.induct)
  case 1
  then show ?case by simp
next
  case (2 e)
  then show ?case by simp
next
  case (3 e g es)
  then show ?case by simp
qed

lemma closed_sum_zero:
  fixes f :: "point \<Rightarrow> int"
  shows "closed_chain es \<Longrightarrow> (\<Sum>e\<leftarrow>es. f (ep1 e) - f (ep2 e)) = 0"
  using chain_telescope [of es f] by (simp add: closed_chain_def)

lemma dist_line_parts:
  "dist_line (ep1 e) (ep2 e) s =
     px s * (py (ep1 e) - py (ep2 e)) - py s * (px (ep1 e) - px (ep2 e)) +
     (px (ep1 e) * py (ep2 e) - px (ep2 e) * py (ep1 e))"
  by (simp add: dist_line_def algebra_simps)

lemma sum_dist_line:
  assumes "closed_chain es"
  shows "(\<Sum>e\<leftarrow>es. dist_line (ep1 e) (ep2 e) s) =
         (\<Sum>e\<leftarrow>es. px (ep1 e) * py (ep2 e) - px (ep2 e) * py (ep1 e))"
proof -
  have "(\<Sum>e\<leftarrow>es. dist_line (ep1 e) (ep2 e) s) =
        px s * (\<Sum>e\<leftarrow>es. py (ep1 e) - py (ep2 e)) - py s * (\<Sum>e\<leftarrow>es. px (ep1 e) - px (ep2 e)) +
        (\<Sum>e\<leftarrow>es. px (ep1 e) * py (ep2 e) - px (ep2 e) * py (ep1 e))"
    unfolding dist_line_parts
    by (induction es) (simp_all add: algebra_simps)
  then show ?thesis
    using closed_sum_zero [OF assms, of py] closed_sum_zero [OF assms, of px] by simp
qed

lemma shoelace_dist_line: "shoelace a b c = dist_line a b c"
  by (simp add: shoelace_def dist_line_def algebra_simps)

lemma fan_areas:
  assumes cc: "closed_chain es"
    and neg: "\<forall>e\<in>set es. dist_line (ep1 e) (ep2 e) seed < 0"
  shows "(\<Sum>t\<leftarrow>map (fan seed) es. tri_area2 t) = polygon_area2 es"
proof -
  have "(\<Sum>t\<leftarrow>map (fan seed) es. tri_area2 t) = (\<Sum>e\<leftarrow>es. - dist_line (ep1 e) (ep2 e) seed)"
    using neg by (induction es) (simp_all add: tri_area2_def fan_def shoelace_dist_line)
  also have "\<dots> = - (\<Sum>e\<leftarrow>es. dist_line (ep1 e) (ep2 e) seed)"
    by (induction es) simp_all
  finally have a: "(\<Sum>t\<leftarrow>map (fan seed) es. tri_area2 t) = - (\<Sum>e\<leftarrow>es. dist_line (ep1 e) (ep2 e) seed)" .
  have "(\<Sum>e\<leftarrow>es. dist_line (ep1 e) (ep2 e) seed) \<le> 0"
    using neg by (induction es) (simp_all add: add_nonpos_nonpos less_imp_le)
  then show ?thesis unfolding a polygon_area2_def sum_dist_line [OF cc] by simp
qed


text \<open>
  C5.  The points are distinct; every point but \<open>seed\<close> is a hull vertex; \<open>seed\<close> is
  not, and it is strictly inside: no point lies on a line through two others that
  has all points on one side.  \<^verbatim>\<open>triangulation\<close> is called as the program calls it,
  with \<^verbatim>\<open>global.edges\<close> empty and window coordinates.  Then it returns; the hull it
  computes is a closed chain through exactly the hull vertices; the triangles it
  leaves in \<^verbatim>\<open>global.tris\<close> are the fan of that chain around \<open>seed\<close>, one for each hull
  vertex; and their shoelace areas add up to the shoelace area of the hull polygon
  (both doubled).
\<close>

theorem fan_triangulation:
  assumes dis: "distinct (t_points s)" and nfb: "no_flat_boundary (t_points s)"
    and seed: "seed \<in> set (t_points s)" and inner: "\<not> exposed (t_points s) seed"
    and hullv: "\<forall>p\<in>set (t_points s). p \<noteq> seed \<longrightarrow> exposed (t_points s) p"
    and len: "3 \<le> length (t_points s)"
    and fresh: "t_edges s = []"
    and wmin: "\<exists>p\<in>set (t_points s). px p < t_w s" and wmax: "\<exists>p\<in>set (t_points s). - 1 < px p"
    and near: "pythagorean seed \<lparr>px = t_w s sdiv 2, py = t_h s sdiv 2\<rparr> < INT_MAX"
    and fuel: "length (t_points s) < fuel"
  shows "\<exists>s' r es. triangulation fuel s = Inr (s', r) \<and>
           hull_of fuel (t_w s) (t_points s) = Inr es \<and> closed_chain es \<and>
           vertices es = set (t_points s) - {seed} \<and>
           t_tris s' = map (fan seed) es \<and>
           length (t_tris s') = length (t_points s) - 1 \<and>
           sum_list (map tri_area2 (t_tris s')) = polygon_area2 es"
proof -
  let ?pts = "t_points s"
  let ?s0 = "s\<lparr>t_tris := []\<rparr>"
  from hull_of_correct [OF len dis nfb wmin wmax fuel] obtain es where
    h: "hull_of fuel (t_w s) ?pts = Inr es" and cc: "closed_chain es"
    and sound: "\<forall>e\<in>set es. ep1 e \<in> set ?pts \<and> ep2 e \<in> set ?pts \<and> ep1 e \<noteq> ep2 e \<and>
                       (\<forall>q\<in>set ?pts. dist_line (ep1 e) (ep2 e) q \<le> 0)"
    and v0: "vertices es = {p \<in> set ?pts. exposed ?pts p}"
    and inside: "\<forall>q\<in>set ?pts. q \<notin> vertices es \<longrightarrow> (\<forall>e\<in>set es. dist_line (ep1 e) (ep2 e) q < 0)"
    by blast
  have v: "vertices es = set ?pts - {seed}" unfolding v0 using inner hullv by blast
  let ?s1 = "?s0\<lparr>t_edges := es\<rparr>"
  have ch: "convex_hull_t fuel ?s0 = Inr ?s1"
    using h fresh by (simp add: convex_hull_t_of)
  have oe: "on_edge ?s1 p \<longleftrightarrow> p \<in> vertices es" for p by (simp add: on_edge_vertices)
  let ?d = "pythagorean seed \<lparr>px = t_w s sdiv 2, py = t_h s sdiv 2\<rparr>"
  have found: "fold (mid_step ?s1) ?pts (None, INT_MAX) = (Some seed, ?d)"
    using fold_mid_step [of ?pts seed ?s1 ?d "(None, INT_MAX)"] v oe seed near by simp
  obtain k where k: "fuel = Suc k" using fuel by (cases fuel) auto
  have leaf: "\<forall>e\<in>set es. filter (subdivides ?s1 (fan seed e)) (t_points ?s1) = []"
  proof
    fix e assume e: "e \<in> set es"
    have "\<not> subdivides ?s1 (fan seed e) q" if "q \<in> set ?pts" for q
      using fan_is_leaf [OF nfb hullv seed _ _ _ _ that, of e ?s1] sound e by blast
    then show "filter (subdivides ?s1 (fan seed e)) (t_points ?s1) = []"
      by (simp add: filter_empty_conv)
  qed
  let ?s2 = "?s1\<lparr>t_tris := map (fan seed) es\<rparr>"
  have tr: "trisect_all fuel seed es ?s1 = Inr ?s2"
    unfolding k using trisect_all_fans [OF leaf, of k] by simp
  let ?s3 = "?s2\<lparr>t_points := [], t_edges := []\<rparr>"
  have nd: "?d \<noteq> INT_MAX" using near by simp
  have res: "triangulation fuel s =
      Inr (?s3, Some (snd (tri_cleanup ?s3), length (t_points ?s3), length (t_tris ?s3)))"
    using len ch found nd tr
    by (simp add: triangulation_def Let_def tri_cleanup_def del: trisect_all.simps)
  have n: "length es = length ?pts - 1"
  proof -
    have "distinct (map ep1 es)" by (rule hull_of_simple [OF len dis nfb h])
    then have "length es = card (ep1 ` set es)"
      using distinct_card [of "map ep1 es"] by simp
    also have "\<dots> = card (set ?pts - {seed})"
      using closed_chain_vertices [OF cc] v by simp
    also have "\<dots> = length ?pts - 1" using seed distinct_card [OF dis] by simp
    finally show ?thesis .
  qed
  have neg: "\<forall>e\<in>set es. dist_line (ep1 e) (ep2 e) seed < 0"
    using inside seed v by blast
  have ar: "sum_list (map tri_area2 (map (fan seed) es)) = polygon_area2 es"
    by (rule fan_areas [OF cc neg])
  show ?thesis
    apply (rule exI [of _ ?s3])
    apply (rule exI [of _ "Some (snd (tri_cleanup ?s3), length (t_points ?s3), length (t_tris ?s3))"])
    apply (rule exI [of _ es])
    using res h cc v n ar by simp
qed


theorem fan_triangulation_witness:
  "distinct (t_points (start_tglob square5)) \<and> pt 2 2 \<in> set (t_points (start_tglob square5)) \<and>
   3 \<le> length (t_points (start_tglob square5)) \<and> t_edges (start_tglob square5) = [] \<and>
   pythagorean (pt 2 2) \<lparr>px = t_w (start_tglob square5) sdiv 2, py = t_h (start_tglob square5) sdiv 2\<rparr>
     < INT_MAX \<and>
   length (t_points (start_tglob square5)) < 6 \<and>
   (\<exists>s' r es. triangulation 6 (start_tglob square5) = Inr (s', r) \<and>
      hull_of 6 (t_w (start_tglob square5)) (t_points (start_tglob square5)) = Inr es \<and>
      length (t_tris s') = 4 \<and>
      sum_list (map tri_area2 (t_tris s')) = polygon_area2 es) \<and>
   map_sum id (\<lambda>r. (length (t_tris (fst r)), sum_list (map tri_area2 (t_tris (fst r)))))
     (triangulation 6 (start_tglob square5)) = Inr (4, 32)"
proof -
  let ?s = "start_tglob square5"
  have pts: "t_points ?s = square5" by (simp add: start_tglob_def)
  have a: "distinct (t_points ?s)" unfolding pts by (simp add: square5_def pt_def)
  have b0: "no_flat_boundary square5"
    unfolding no_flat_boundary_def square5_def pt_def dist_line_def by simp
  have b: "no_flat_boundary (t_points ?s)" unfolding pts by (rule b0)
  have c: "pt 2 2 \<in> set (t_points ?s)" unfolding pts by (simp add: square5_def)
  have d: "\<not> exposed (t_points ?s) (pt 2 2)"
  proof
    assume "exposed (t_points ?s) (pt 2 2)"
    then obtain a b where
      h: "\<forall>q\<in>set square5. q \<noteq> pt 2 2 \<longrightarrow>
            a * px q + b * py q < a * px (pt 2 2) + b * py (pt 2 2)"
      unfolding exposed_def pts by blast
    have "pt 0 0 \<in> set square5" "pt 0 0 \<noteq> pt 2 2" "pt 4 4 \<in> set square5" "pt 4 4 \<noteq> pt 2 2"
      by (simp_all add: square5_def pt_def)
    then have "a * px (pt 0 0) + b * py (pt 0 0) < a * px (pt 2 2) + b * py (pt 2 2)"
      and "a * px (pt 4 4) + b * py (pt 4 4) < a * px (pt 2 2) + b * py (pt 2 2)"
      using h by blast+
    then show False by (simp add: pt_def)
  qed
  have e1: "exposed square5 (pt 0 0)" unfolding exposed_def
    by (rule exI [of _ "- 1"], rule exI [of _ "- 1"]) (simp add: square5_def pt_def)
  have e2: "exposed square5 (pt 4 0)" unfolding exposed_def
    by (rule exI [of _ "1"], rule exI [of _ "- 1"]) (simp add: square5_def pt_def)
  have e3: "exposed square5 (pt 4 4)" unfolding exposed_def
    by (rule exI [of _ "1"], rule exI [of _ "1"]) (simp add: square5_def pt_def)
  have e4: "exposed square5 (pt 0 4)" unfolding exposed_def
    by (rule exI [of _ "- 1"], rule exI [of _ "1"]) (simp add: square5_def pt_def)
  have e0: "\<forall>p\<in>set square5. p \<noteq> pt 2 2 \<longrightarrow> exposed square5 p"
    using e1 e2 e3 e4 by (simp add: square5_def)
  have e: "\<forall>p\<in>set (t_points ?s). p \<noteq> pt 2 2 \<longrightarrow> exposed (t_points ?s) p"
    unfolding pts by (rule e0)
  have f: "3 \<le> length (t_points ?s)" unfolding pts by (simp add: square5_def)
  have g: "t_edges ?s = []" by (simp add: start_tglob_def)
  have i: "\<exists>p\<in>set (t_points ?s). px p < t_w ?s" by (simp add: start_tglob_def square5_def pt_def)
  have j: "\<exists>p\<in>set (t_points ?s). - 1 < px p" unfolding pts by (simp add: square5_def pt_def)
  have k: "pythagorean (pt 2 2) \<lparr>px = t_w ?s sdiv 2, py = t_h ?s sdiv 2\<rparr> < INT_MAX"
    by code_simp
  have l: "length (t_points ?s) < 6" unfolding pts by (simp add: square5_def)
  from fan_triangulation [OF a b c d e f g i j k l] obtain s' r es where
    t: "triangulation 6 ?s = Inr (s', r)" and h: "hull_of 6 (t_w ?s) (t_points ?s) = Inr es"
    and n: "length (t_tris s') = length (t_points ?s) - 1"
    and ar: "sum_list (map tri_area2 (t_tris s')) = polygon_area2 es"
    by blast
  have n4: "length (t_tris s') = 4" using n unfolding pts by (simp add: square5_def)
  have ev: "map_sum id (\<lambda>r. (length (t_tris (fst r)), sum_list (map tri_area2 (t_tris (fst r)))))
     (triangulation 6 ?s) = Inr (4, 32)"
    by code_simp
  have ex: "\<exists>s' r es. triangulation 6 ?s = Inr (s', r) \<and>
      hull_of 6 (t_w ?s) (t_points ?s) = Inr es \<and>
      length (t_tris s') = 4 \<and>
      sum_list (map tri_area2 (t_tris s')) = polygon_area2 es"
    using t h n4 ar by blast
  show ?thesis using a c f g k l ex ev by blast
qed


end
